theory Spec2Isabelle
  imports Main "HOL-Library.Word"
begin

section \<open>The Sereal buffer engine (ruby/ext/sereal/buffer.h)\<close>

text \<open>
  The buffer is the C struct \<open>sereal_t\<close>: a heap block \<open>data\<close>, the number \<open>size\<close> of
  valid bytes, the cursor \<open>pos\<close>, the number \<open>rsize\<close> of reserved bytes (the capacity),
  the flags, the descriptor \<open>fd\<close> of a streaming source and the tracked host object.
  The three counters are \<open>u32\<close>: every sum and difference below is taken modulo \<open>2^32\<close>,
  as in the C code.
\<close>

type_synonym u8 = "8 word"
type_synonym u32 = "32 word"

subsection \<open>Memory\<close>

text \<open>
  A heap block is its allocated length and its content. A pointer into a block is the
  block and an offset. An access outside the allocated length has no defined behaviour
  in C; the model reports it as the result \<open>Undefined\<close> and stops there.
\<close>

record block =
  len :: nat
  cell :: "nat \<Rightarrow> u8"

text \<open>
  What surrounds the buffer: the allocator and the byte source behind the descriptor.
  \<open>grants w k\<close> says whether the \<open>k\<close>-th allocation request is served, \<open>junk w k i\<close> is
  the indeterminate content of byte \<open>i\<close> of the block it returns, \<open>served\<close> counts the
  requests made so far, and \<open>input\<close> is what the successive calls of \<open>read\<close> will find.
\<close>

datatype chunk = Bytes "u8 list" | Fault

record world =
  grants :: "nat \<Rightarrow> bool"
  junk :: "nat \<Rightarrow> nat \<Rightarrow> u8"
  served :: nat
  input :: "chunk list"

text \<open>
  Modelled from the spec: \<open>s_raise\<close> is a macro of \<open>sereal.h\<close>, which is not among the
  sources. The spec has every error raised at the point of detection and propagated to
  the caller, with no recovery inside the engine: the model returns the exception as a
  value, with the arguments of its message, and nothing of the buffer. \<open>Undefined\<close> is
  not an exception of the code: it stands for an access outside a block.
\<close>

datatype error =
    NoMemError u32
  | RangeError_bounds u32 u32 u32
  | RangeError_stream u32
  | Undefined

text \<open>
  Modelled from the spec: the struct \<open>sereal_t\<close> and the masks \<open>FLAG_NOT_MINE\<close> and
  \<open>FLAG_STREAM\<close> are declared in \<open>sereal.h\<close>. The fields are the ones \<open>buffer.h\<close> uses,
  which are the spec's data, size, pos, capacity (\<open>rsize\<close>), mode flags, source (\<open>fd\<close>)
  and anchor (\<open>tracked\<close>). The flag word is only ever tested against the two masks: the
  two tested bits are the fields \<open>flag_not_mine\<close> (Borrowed) and \<open>flag_stream\<close>
  (Streaming). The field \<open>size\<close> is named \<open>size_s\<close> here.
\<close>

record sereal_t =
  data :: "block option"
  size_s :: u32
  pos :: u32
  rsize :: u32
  flag_not_mine :: bool
  flag_stream :: bool
  fd :: int
  tracked :: "nat option"

text \<open>
  \<open>realloc(p, n)\<close> of the C library: a block of \<open>n\<close> bytes that starts with the bytes of
  \<open>p\<close>; the bytes beyond them are the indeterminate ones \<open>j\<close>. \<open>s_realloc_or_raise\<close>
  raises when the allocator returns a null pointer.
\<close>

definition realloc :: "(nat \<Rightarrow> u8) \<Rightarrow> block option \<Rightarrow> nat \<Rightarrow> block" where
  "realloc j p n =
     \<lparr>len = n,
      cell = (\<lambda>i. case p of None \<Rightarrow> j i
                   | Some b \<Rightarrow> if i < len b then cell b i else j i)\<rparr>"

definition s_realloc_or_raise :: "world \<Rightarrow> block option \<Rightarrow> u32 \<Rightarrow> error + (world \<times> block)" where
  "s_realloc_or_raise w p n =
     (if grants w (served w)
      then Inr (w\<lparr>served := Suc (served w)\<rparr>, realloc (junk w (served w)) p (unat n))
      else Inl (NoMemError n))"

definition s_alloc_or_raise :: "world \<Rightarrow> u32 \<Rightarrow> error + (world \<times> block)" where
  "s_alloc_or_raise w n = s_realloc_or_raise w None n"

text \<open>
  Modelled from the spec: \<open>COPY(src, dst, len)\<close> is a macro of \<open>sereal.h\<close>. The spec has
  append copy the bytes to \<open>data[size..]\<close> and compaction relocate \<open>data[pos..size)\<close> to
  the start of storage, so it copies \<open>len\<close> bytes from \<open>src\<close> to \<open>dst\<close>.
  \<open>COPY src so dst dof n\<close> copies \<open>n\<close> bytes from offset \<open>so\<close> of \<open>src\<close> to offset \<open>dof\<close>
  of \<open>dst\<close>, and is \<open>None\<close> when either range leaves its block.
\<close>

definition COPY :: "block \<Rightarrow> nat \<Rightarrow> block \<Rightarrow> nat \<Rightarrow> nat \<Rightarrow> block option" where
  "COPY src so dst dof n =
     (if so + n \<le> len src \<and> dof + n \<le> len dst
      then Some (dst\<lparr>cell := (\<lambda>i. if dof \<le> i \<and> i < dof + n
                                   then cell src (so + (i - dof)) else cell dst i)\<rparr>)
      else None)"

text \<open>Reading \<open>n\<close> bytes through a pointer to offset \<open>off\<close> of the block \<open>p\<close>.\<close>

definition load :: "block option \<Rightarrow> nat \<Rightarrow> nat \<Rightarrow> u8 list option" where
  "load p off n =
     (case p of None \<Rightarrow> None
      | Some d \<Rightarrow> if off + n \<le> len d then Some (map (cell d) [off..<off + n]) else None)"

text \<open>A block holding exactly the bytes \<open>bs\<close> (a caller's argument such as \<open>&b\<close>).\<close>

definition block_of :: "u8 list \<Rightarrow> block" where
  "block_of bs = \<lparr>len = length bs, cell = (\<lambda>i. if i < length bs then bs ! i else 0)\<rparr>"

subsection \<open>Creation\<close>

text \<open>
  \<open>s_create\<close> allocates the struct (\<open>n\<close> is \<open>sizeof(sereal_t)\<close>), zeroes it and sets
  \<open>tracked\<close> to \<open>Qnil\<close>.
\<close>

definition empty_buffer :: sereal_t where
  "empty_buffer =
     \<lparr>data = None, size_s = 0, pos = 0, rsize = 0,
      flag_not_mine = False, flag_stream = False, fd = 0, tracked = None\<rparr>"

definition s_create :: "world \<Rightarrow> u32 \<Rightarrow> error + (world \<times> sereal_t)" where
  "s_create w n =
     (case s_alloc_or_raise w n of
        Inl e \<Rightarrow> Inl e
      | Inr (w', b) \<Rightarrow> Inr (w', empty_buffer))"

subsection \<open>Growth and append\<close>

definition s_alloc :: "world \<Rightarrow> sereal_t \<Rightarrow> u32 \<Rightarrow> error + (world \<times> sereal_t)" where
  "s_alloc w s n =
     (if rsize s > size_s s + n then Inr (w, s)
      else
        (let sz = size_s s + n + 512 in
         case s_realloc_or_raise w (data s) sz of
           Inl e \<Rightarrow> Inl e
         | Inr (w', buf) \<Rightarrow> Inr (w', s\<lparr>data := Some buf, rsize := sz\<rparr>)))"

definition s_append :: "world \<Rightarrow> sereal_t \<Rightarrow> block \<Rightarrow> u32 \<Rightarrow> error + (world \<times> sereal_t)" where
  "s_append w s suffix s_len =
     (case s_alloc w s s_len of
        Inl e \<Rightarrow> Inl e
      | Inr (w', s1) \<Rightarrow>
          (case data s1 of
             None \<Rightarrow> Inl Undefined
           | Some d \<Rightarrow>
               (case COPY suffix 0 d (unat (size_s s1)) (unat s_len) of
                  None \<Rightarrow> Inl Undefined
                | Some d' \<Rightarrow>
                    Inr (w', s1\<lparr>data := Some d',
                                size_s := size_s s1 + s_len,
                                pos := pos s1 + s_len\<rparr>))))"

definition s_append_u8 :: "world \<Rightarrow> sereal_t \<Rightarrow> u8 \<Rightarrow> error + (world \<times> sereal_t)" where
  "s_append_u8 w s b = s_append w s (block_of [b]) 1"

subsection \<open>The streaming reader\<close>

text \<open>
  \<open>read(fd, buf, n)\<close>: the result of the call, the bytes it stores at the start of
  \<open>buf\<close>, and what is left of the source. An exhausted source gives 0, a failing one -1,
  and a chunk gives at most \<open>n\<close> of its bytes.
\<close>

fun read_fd :: "chunk list \<Rightarrow> nat \<Rightarrow> int \<times> u8 list \<times> chunk list" where
  "read_fd [] n = (0, [], [])"
| "read_fd (Fault # cs) n = (- 1, [], cs)"
| "read_fd (Bytes bs # cs) n =
     (int (min n (length bs)), take n bs,
      if length bs \<le> n then cs else Bytes (drop n bs) # cs)"

text \<open>The scratch block after \<open>read\<close> has stored the bytes \<open>bs\<close> at its start.\<close>

definition fill :: "block \<Rightarrow> u8 list \<Rightarrow> block" where
  "fill buf bs = buf\<lparr>cell := (\<lambda>i. if i < length bs then bs ! i else cell buf i)\<rparr>"

text \<open>
  The loop of \<open>s_read_stream\<close> ends: a pass that goes on has appended at least one byte
  and at most \<open>end - size\<close> bytes, so \<open>end - size\<close> decreases. The four lemmas say so.
\<close>

lemma s_alloc_size: "s_alloc w s n = Inr (w', s') \<Longrightarrow> size_s s' = size_s s"
  by (auto simp: s_alloc_def Let_def split: if_splits sum.splits)

lemma s_append_size: "s_append w s b n = Inr (w', s') \<Longrightarrow> size_s s' = size_s s + n"
  by (auto simp: s_append_def s_alloc_size split: sum.splits option.splits)

lemma read_fd_length:
  "read_fd cs n = (r, bs, rest) \<Longrightarrow> length bs \<le> n \<and> (r = int (length bs) \<or> (r = - 1 \<and> bs = []))"
  by (induction cs n rule: read_fd.induct) auto

lemma stream_progress:
  assumes lt: "size_s s < e"
    and rd: "read_fd cs (unat (e - size_s s)) = (r, bs, rest)"
    and rc: "0 < sint (word_of_int r :: u32)"
  shows "0 < length bs \<and> unat (size_s s + word_of_int r) = unat (size_s s) + length bs
         \<and> unat (size_s s) + length bs \<le> unat e \<and> unat (word_of_int r :: u32) = length bs"
proof -
  from read_fd_length [OF rd]
  have le: "length bs \<le> unat (e - size_s s)" and r: "r = int (length bs) \<or> (r = - 1 \<and> bs = [])"
    by auto
  from rc have "r \<noteq> - 1" by auto
  with r have r': "r = int (length bs)" by auto
  from lt have sub: "unat (e - size_s s) = unat e - unat (size_s s)"
    by (simp add: unat_sub word_less_nat_alt word_le_nat_alt)
  have e32: "unat e < 2 ^ 32" using unsigned_less [of e, where ?'a = nat] by simp
  from lt have lt': "unat (size_s s) < unat e" by (simp add: word_less_nat_alt)
  have bnd: "unat (size_s s) + length bs \<le> unat e" using le sub lt' by arith
  have u: "unat (word_of_int r :: u32) = length bs"
    using r' bnd e32 by (simp add: unat_of_nat)
  have pos: "0 < length bs" using rc r' by (cases "length bs = 0") auto
  have "unat (size_s s + word_of_int r) = unat (size_s s) + unat (word_of_int r :: u32)"
    using u bnd e32 by (simp add: unat_add_lem [THEN iffD1])
  with u pos bnd show ?thesis by simp
qed

text \<open>
  The loop, with the cursor saved before it as the parameter \<open>pos0\<close>. A \<open>read\<close> that
  stores more bytes than the scratch block holds writes outside the block. The result of
  \<open>read\<close> is assigned to an \<open>int\<close> and handed to \<open>s_append\<close> as a \<open>u32\<close>.
\<close>

function s_read_stream_loop ::
  "world \<Rightarrow> sereal_t \<Rightarrow> u32 \<Rightarrow> u32 \<Rightarrow> error + (world \<times> sereal_t \<times> int)" where
  "s_read_stream_loop w s end pos0 =
     (if size_s s < end then
        (let req = end - size_s s in
         case s_alloc_or_raise w (size_s s - req) of
           Inl e \<Rightarrow> Inl e
         | Inr (w1, buf) \<Rightarrow>
             (case read_fd (input w1) (unat req) of
                (r, bs, rest) \<Rightarrow>
                  if len buf < length bs then Inl Undefined
                  else
                    (let rc = sint (word_of_int r :: u32) in
                     if rc \<le> 0 then Inr (w1\<lparr>input := rest\<rparr>, s, - 1)
                     else
                       (case s_append (w1\<lparr>input := rest\<rparr>) s (fill buf bs) (word_of_int rc) of
                          Inl e \<Rightarrow> Inl e
                        | Inr (w2, s') \<Rightarrow> s_read_stream_loop w2 s' end pos0))))
      else Inr (w, s\<lparr>pos := pos0\<rparr>, 1))"
  by pat_completeness auto
termination
proof (relation "measure (\<lambda>(w, s, e, p). unat e - unat (size_s s))", goal_cases)
  case 1
  show ?case by simp
next
  case (2 w s e pos0 req x w1 buf r y bs rest rc z w2 s')
  from 2 have rd: "read_fd (input w1) (unat (e - size_s s)) = (r, bs, rest)"
    by (metis prod.collapse prod.inject)
  from 2 have ap: "s_append (w1\<lparr>input := rest\<rparr>) s (fill buf bs) (word_of_int r) = Inr (w2, s')"
    by simp
  from 2 have rc: "0 < sint (word_of_int r :: u32)" by simp
  from stream_progress [OF \<open>size_s s < e\<close> rd rc]
  have "0 < length bs" and "unat (size_s s + word_of_int r) = unat (size_s s) + length bs"
    and "unat (size_s s) + length bs \<le> unat e"
    by blast+
  with s_append_size [OF ap] have "unat e - unat (size_s s') < unat e - unat (size_s s)"
    by arith
  then show ?case by simp
qed

declare s_read_stream_loop.simps [simp del]

definition s_read_stream :: "world \<Rightarrow> sereal_t \<Rightarrow> u32 \<Rightarrow> error + (world \<times> sereal_t \<times> int)" where
  "s_read_stream w s end = s_read_stream_loop w s end (pos s)"

subsection \<open>The bounds guard and the typed reads\<close>

text \<open>
  \<open>s_get_p_at_pos\<close> returns the pointer \<open>&s->data[pos]\<close>: the model returns the offset
  \<open>pos\<close> into the block \<open>data\<close> of the returned buffer.
\<close>

definition s_get_p_at_pos ::
  "world \<Rightarrow> sereal_t \<Rightarrow> u32 \<Rightarrow> u32 \<Rightarrow> error + (world \<times> sereal_t \<times> u32)" where
  "s_get_p_at_pos w s p req =
     (if p + req \<ge> size_s s then
        (if flag_stream s then
           (case s_read_stream w s (p + req + 1) of
              Inl e \<Rightarrow> Inl e
            | Inr (w', s', rc) \<Rightarrow>
                if rc < 0 then Inl (RangeError_stream req) else Inr (w', s', p))
         else Inl (RangeError_bounds p req (size_s s)))
      else Inr (w, s, p))"

definition s_get_p_at_pos_bang ::
  "world \<Rightarrow> sereal_t \<Rightarrow> u32 \<Rightarrow> u32 \<Rightarrow> error + (world \<times> sereal_t \<times> u32)" where
  "s_get_p_at_pos_bang w s p req =
     (case s_get_p_at_pos w s p req of
        Inl e \<Rightarrow> Inl e
      | Inr (w', s', q) \<Rightarrow> Inr (w', s'\<lparr>pos := pos s' + req\<rparr>, q))"

definition s_get_p :: "world \<Rightarrow> sereal_t \<Rightarrow> error + (world \<times> sereal_t \<times> u32)" where
  "s_get_p w s = s_get_p_at_pos w s (pos s) 0"

definition s_get_u8 :: "world \<Rightarrow> sereal_t \<Rightarrow> error + (world \<times> sereal_t \<times> u8)" where
  "s_get_u8 w s =
     (case s_get_p w s of
        Inl e \<Rightarrow> Inl e
      | Inr (w', s', q) \<Rightarrow>
          (case load (data s') (unat q) 1 of
             Some [b] \<Rightarrow> Inr (w', s', b)
           | _ \<Rightarrow> Inl Undefined))"

definition s_get_u8_bang :: "world \<Rightarrow> sereal_t \<Rightarrow> error + (world \<times> sereal_t \<times> u8)" where
  "s_get_u8_bang w s =
     (case s_get_u8 w s of
        Inl e \<Rightarrow> Inl e
      | Inr (w', s', r) \<Rightarrow> Inr (w', s'\<lparr>pos := pos s' + 1\<rparr>, r))"

text \<open>
  The reads of \<open>u32\<close>, \<open>float\<close>, \<open>double\<close> and \<open>long double\<close> have one body, with the
  \<open>sizeof\<close> of the type: ask the guard for \<open>sizeof - 1\<close> bytes at \<open>pos\<close>, add \<open>sizeof\<close> to
  \<open>pos\<close>, read the value through the pointer. The value is returned as its \<open>sizeof\<close>
  bytes in memory order; how the platform reads them as a number is left out.
\<close>

definition s_get_fixed_bang ::
  "u32 \<Rightarrow> world \<Rightarrow> sereal_t \<Rightarrow> error + (world \<times> sereal_t \<times> u8 list)" where
  "s_get_fixed_bang sizeof w s =
     (case s_get_p_at_pos w s (pos s) (sizeof - 1) of
        Inl e \<Rightarrow> Inl e
      | Inr (w', s', r) \<Rightarrow>
          (let s'' = s'\<lparr>pos := pos s' + sizeof\<rparr> in
           case load (data s'') (unat r) (unat sizeof) of
             None \<Rightarrow> Inl Undefined
           | Some v \<Rightarrow> Inr (w', s'', v)))"

definition s_get_u32_bang :: "world \<Rightarrow> sereal_t \<Rightarrow> error + (world \<times> sereal_t \<times> u8 list)" where
  "s_get_u32_bang = s_get_fixed_bang 4"

definition s_get_float_bang :: "world \<Rightarrow> sereal_t \<Rightarrow> error + (world \<times> sereal_t \<times> u8 list)" where
  "s_get_float_bang = s_get_fixed_bang 4"

definition s_get_double_bang :: "world \<Rightarrow> sereal_t \<Rightarrow> error + (world \<times> sereal_t \<times> u8 list)" where
  "s_get_double_bang = s_get_fixed_bang 8"

text \<open>\<open>sizeof(long double)\<close> depends on the platform (8, 12 or 16): the parameter \<open>ld\<close>.\<close>

definition s_get_long_double_bang ::
  "u32 \<Rightarrow> world \<Rightarrow> sereal_t \<Rightarrow> error + (world \<times> sereal_t \<times> u8 list)" where
  "s_get_long_double_bang ld = s_get_fixed_bang ld"

definition s_shift_position_bang :: "sereal_t \<Rightarrow> u32 \<Rightarrow> sereal_t \<times> u32" where
  "s_shift_position_bang s n = (s\<lparr>pos := pos s + n\<rparr>, n)"

subsection \<open>Compaction\<close>

definition s_shift_left :: "world \<Rightarrow> sereal_t \<Rightarrow> error + (world \<times> sereal_t)" where
  "s_shift_left w s =
     (let left = size_s s - pos s in
      if left = 0 then Inr (w, s\<lparr>data := None, size_s := 0, rsize := 0\<rparr>)
      else
        (case s_alloc_or_raise w left of
           Inl e \<Rightarrow> Inl e
         | Inr (w', buf) \<Rightarrow>
             (case data s of
                None \<Rightarrow> Inl Undefined
              | Some d \<Rightarrow>
                  (case COPY d (unat (pos s)) buf 0 (unat left) of
                     None \<Rightarrow> Inl Undefined
                   | Some buf' \<Rightarrow>
                       Inr (w', s\<lparr>data := Some buf', size_s := left, rsize := left\<rparr>)))))"

subsection \<open>Sequences of calls\<close>

text \<open>
  The calls a client makes on one buffer, and their effect in order; the first call that
  raises ends the sequence. \<open>ld\<close> is \<open>sizeof(long double)\<close>. A call keeps the new buffer
  and drops the value read.
\<close>

datatype call =
    Append "u8 list"
  | ReadU8 | ReadU32 | ReadF32 | ReadF64 | ReadExtendedFloat
  | ReadAt u32 u32
  | ShiftCursor u32
  | Compact

fun do_call :: "u32 \<Rightarrow> world \<Rightarrow> sereal_t \<Rightarrow> call \<Rightarrow> error + (world \<times> sereal_t)" where
  "do_call ld w s (Append bs) = s_append w s (block_of bs) (word_of_nat (length bs))"
| "do_call ld w s ReadU8 = map_sum id (\<lambda>(w', s', v). (w', s')) (s_get_u8_bang w s)"
| "do_call ld w s ReadU32 = map_sum id (\<lambda>(w', s', v). (w', s')) (s_get_u32_bang w s)"
| "do_call ld w s ReadF32 = map_sum id (\<lambda>(w', s', v). (w', s')) (s_get_float_bang w s)"
| "do_call ld w s ReadF64 = map_sum id (\<lambda>(w', s', v). (w', s')) (s_get_double_bang w s)"
| "do_call ld w s ReadExtendedFloat =
     map_sum id (\<lambda>(w', s', v). (w', s')) (s_get_long_double_bang ld w s)"
| "do_call ld w s (ReadAt p n) = map_sum id (\<lambda>(w', s', v). (w', s')) (s_get_p_at_pos_bang w s p n)"
| "do_call ld w s (ShiftCursor n) = Inr (w, fst (s_shift_position_bang s n))"
| "do_call ld w s Compact = s_shift_left w s"

fun do_calls :: "u32 \<Rightarrow> world \<Rightarrow> sereal_t \<Rightarrow> call list \<Rightarrow> error + (world \<times> sereal_t)" where
  "do_calls ld w s [] = Inr (w, s)"
| "do_calls ld w s (c # cs) =
     (case do_call ld w s c of
        Inl e \<Rightarrow> Inl e
      | Inr (w', s') \<Rightarrow> do_calls ld w' s' cs)"

text \<open>
  The fixed-width reads that move the cursor, with the \<open>sizeof\<close> of what each one reads
  (\<open>ld\<close> for \<open>long double\<close>).
\<close>

fun typed_read :: "call \<Rightarrow> bool" where
  "typed_read ReadU8 = True"
| "typed_read ReadU32 = True"
| "typed_read ReadF32 = True"
| "typed_read ReadF64 = True"
| "typed_read ReadExtendedFloat = True"
| "typed_read _ = False"

fun sizeof_read :: "u32 \<Rightarrow> call \<Rightarrow> u32" where
  "sizeof_read ld ReadU8 = 1"
| "sizeof_read ld ReadU32 = 4"
| "sizeof_read ld ReadF32 = 4"
| "sizeof_read ld ReadF64 = 8"
| "sizeof_read ld ReadExtendedFloat = ld"
| "sizeof_read ld _ = 0"

text \<open>The calls that keep the cursor inside the valid bytes: append and the typed reads.\<close>

fun keeps_cursor :: "call \<Rightarrow> bool" where
  "keeps_cursor (Append bs) = True"
| "keeps_cursor c = typed_read c"

subsection \<open>What is observed of a buffer\<close>

text \<open>The bytes \<open>data[a..b)\<close> of a buffer.\<close>

definition bytes :: "sereal_t \<Rightarrow> nat \<Rightarrow> nat \<Rightarrow> u8 list" where
  "bytes s a b = (case data s of None \<Rightarrow> [] | Some d \<Rightarrow> map (cell d) [a..<b])"

text \<open>The length of the block behind \<open>data\<close> (0 for a null pointer).\<close>

definition allocated :: "sereal_t \<Rightarrow> nat" where
  "allocated s = (case data s of None \<Rightarrow> 0 | Some d \<Rightarrow> len d)"

text \<open>
  The storage of an owned buffer is consistent when \<open>rsize\<close> is the length of the block
  and the valid bytes lie inside it.
\<close>

definition storage_ok :: "sereal_t \<Rightarrow> bool" where
  "storage_ok s \<longleftrightarrow> allocated s = unat (rsize s) \<and> unat (size_s s) \<le> unat (rsize s)"

text \<open>
  What a read needs, also of a borrowed buffer, whose \<open>rsize\<close> says nothing: the valid
  bytes lie inside the block.
\<close>

definition valid_inside :: "sereal_t \<Rightarrow> bool" where
  "valid_inside s \<longleftrightarrow> unat (size_s s) \<le> allocated s"

text \<open>The fields that no operation of the engine writes.\<close>

definition same_flags :: "sereal_t \<Rightarrow> sereal_t \<Rightarrow> bool" where
  "same_flags s s' \<longleftrightarrow>
     flag_not_mine s' = flag_not_mine s \<and> flag_stream s' = flag_stream s
     \<and> fd s' = fd s \<and> tracked s' = tracked s"

text \<open>The errors that come from the allocator or from an access outside a block.\<close>

definition oom_or_undefined :: "error \<Rightarrow> bool" where
  "oom_or_undefined x \<longleftrightarrow> x = Undefined \<or> (\<exists>n. x = NoMemError n)"

subsection \<open>The fill loop, pass by pass\<close>

text \<open>
  One pass through the body of the loop of \<open>s_read_stream\<close>, as a function of its own:
  the buffer after the pass and the \<open>rc\<close> the pass saw. It is used to reason about the
  loop, which is defined above without it.
\<close>

definition loop_body :: "world \<Rightarrow> sereal_t \<Rightarrow> u32 \<Rightarrow> error + (world \<times> sereal_t \<times> int)" where
  "loop_body w s end =
     (let req = end - size_s s in
      case s_alloc_or_raise w (size_s s - req) of
        Inl e \<Rightarrow> Inl e
      | Inr (w1, buf) \<Rightarrow>
          (case read_fd (input w1) (unat req) of
             (r, bs, rest) \<Rightarrow>
               if len buf < length bs then Inl Undefined
               else
                 (let rc = sint (word_of_int r :: u32) in
                  if rc \<le> 0 then Inr (w1\<lparr>input := rest\<rparr>, s, rc)
                  else
                    (case s_append (w1\<lparr>input := rest\<rparr>) s (fill buf bs) (word_of_int rc) of
                       Inl e \<Rightarrow> Inl e
                     | Inr (w2, s') \<Rightarrow> Inr (w2, s', rc)))))"

text \<open>
  What a fill that started on \<open>s\<close> with target \<open>e\<close> and saved cursor \<open>p0\<close> can return:
  the buffer \<open>s'\<close> and the result \<open>rc\<close>. Either the target is reached and the cursor is
  the saved one, or the fill gave up below the target, and the cursor has moved by the
  number of bytes appended. In both cases no byte that was valid is lost.
\<close>

definition fill_result :: "sereal_t \<Rightarrow> u32 \<Rightarrow> u32 \<Rightarrow> sereal_t \<Rightarrow> int \<Rightarrow> bool" where
  "fill_result s e p0 s' rc \<longleftrightarrow>
     ((rc = 1 \<and> pos s' = p0 \<and> e \<le> size_s s')
        \<or> (rc = - 1 \<and> size_s s' < e \<and> pos s' = pos s + (size_s s' - size_s s)))
     \<and> unat (size_s s) \<le> unat (size_s s')
     \<and> same_flags s s'
     \<and> (storage_ok s \<longrightarrow>
          storage_ok s' \<and> bytes s' 0 (unat (size_s s)) = bytes s 0 (unat (size_s s)))"

subsection \<open>Concrete surroundings and buffers for the examples\<close>

text \<open>
  An allocator that serves every request (with zeroed blocks) over the source \<open>cs\<close>, and
  one that refuses every request.
\<close>

definition generous :: "chunk list \<Rightarrow> world" where
  "generous cs = \<lparr>grants = (\<lambda>k. True), junk = (\<lambda>k i. 0), served = 0, input = cs\<rparr>"

definition refusing :: world where
  "refusing = \<lparr>grants = (\<lambda>k. False), junk = (\<lambda>k i. 0), served = 0, input = []\<rparr>"

text \<open>An owned buffer holding the three bytes 10, 20, 30 with the cursor on the second.\<close>

definition sample :: sereal_t where
  "sample = empty_buffer\<lparr>data := Some (block_of [10, 20, 30]), size_s := 3, pos := 1, rsize := 3\<rparr>"

text \<open>An owned, bounded buffer holding the four bytes 1, 2, 3, 4 with the cursor at 0.\<close>

definition four_bytes :: sereal_t where
  "four_bytes = empty_buffer\<lparr>data := Some (block_of [1, 2, 3, 4]), size_s := 4, rsize := 4\<rparr>"

text \<open>The same four bytes in a borrowed buffer: the flag is set and \<open>rsize\<close> stays 0.\<close>

definition borrowed_four :: sereal_t where
  "borrowed_four =
     empty_buffer\<lparr>data := Some (block_of [1, 2, 3, 4]), size_s := 4, flag_not_mine := True\<rparr>"

text \<open>
  The owned four bytes with the cursor at \<open>2^32 - 2\<close>, and a borrowed buffer with the same
  \<open>size\<close> and cursor over a block of \<open>2^32 + 10\<close> bytes.
\<close>

definition near_wrap :: sereal_t where
  "near_wrap = four_bytes\<lparr>pos := 4294967294\<rparr>"

definition wide_buffer :: sereal_t where
  "wide_buffer =
     empty_buffer\<lparr>data := Some \<lparr>len = 4294967306, cell = (\<lambda>i. 0)\<rparr>, size_s := 4,
                  pos := 4294967294, flag_not_mine := True\<rparr>"

text \<open>The same four bytes in a streaming buffer.\<close>

definition four_streaming :: sereal_t where
  "four_streaming = four_bytes\<lparr>flag_stream := True\<rparr>"

section \<open>Properties\<close>

subsection \<open>Allocation and growth\<close>

lemma s_realloc_or_raise_Inr:
  "s_realloc_or_raise w p n = Inr (w', b) \<longleftrightarrow>
     grants w (served w) \<and> w' = w\<lparr>served := Suc (served w)\<rparr>
     \<and> b = realloc (junk w (served w)) p (unat n)"
  by (auto simp: s_realloc_or_raise_def)

lemma s_realloc_or_raise_Inl:
  "s_realloc_or_raise w p n = Inl e \<longleftrightarrow> \<not> grants w (served w) \<and> e = NoMemError n"
  by (auto simp: s_realloc_or_raise_def)

lemma len_realloc [simp]: "len (realloc j p n) = n"
  by (simp add: realloc_def)

lemma cell_realloc_old: "i < len d \<Longrightarrow> cell (realloc j (Some d) n) i = cell d i"
  by (simp add: realloc_def)

lemma COPY_Some:
  "COPY src so dst dof n = Some d' \<longleftrightarrow>
     so + n \<le> len src \<and> dof + n \<le> len dst
     \<and> d' = dst\<lparr>cell := (\<lambda>i. if dof \<le> i \<and> i < dof + n
                               then cell src (so + (i - dof)) else cell dst i)\<rparr>"
  by (auto simp: COPY_def)

lemma s_alloc_skip: "size_s s + n < rsize s \<Longrightarrow> s_alloc w s n = Inr (w, s)"
  by (simp add: s_alloc_def)

lemma s_alloc_grow:
  "\<not> size_s s + n < rsize s \<Longrightarrow>
   s_alloc w s n =
     (if grants w (served w)
      then Inr (w\<lparr>served := Suc (served w)\<rparr>,
                s\<lparr>data := Some (realloc (junk w (served w)) (data s) (unat (size_s s + n + 512))),
                  rsize := size_s s + n + 512\<rparr>)
      else Inl (NoMemError (size_s s + n + 512)))"
  by (simp add: s_alloc_def s_realloc_or_raise_def Let_def)

lemma world_served_neq: "w\<lparr>served := Suc (served w)\<rparr> \<noteq> w"
proof
  assume "w\<lparr>served := Suc (served w)\<rparr> = w"
  then have "served (w\<lparr>served := Suc (served w)\<rparr>) = served w" by simp
  then show False by simp
qed

lemma s_alloc_Inr_bound:
  assumes "s_alloc w s n = Inr (w', s')" and nw: "unat (size_s s) + unat n + 512 < 2 ^ 32"
  shows "size_s s' = size_s s \<and> unat (size_s s) + unat n \<le> unat (rsize s')"
proof (cases "size_s s + n < rsize s")
  case True
  with assms have "s' = s" by (simp add: s_alloc_skip)
  moreover have "unat (size_s s + n) = unat (size_s s) + unat n"
    using nw by (simp add: unat_add_lem [THEN iffD1])
  ultimately show ?thesis using True by (simp add: word_less_nat_alt)
next
  case False
  with assms have r: "rsize s' = size_s s + n + 512" and sz: "size_s s' = size_s s"
    by (auto simp: s_alloc_grow split: if_splits)
  have a: "unat (size_s s + n) = unat (size_s s) + unat n"
    using nw by (simp add: unat_add_lem [THEN iffD1])
  have "unat (size_s s + n + 512) = unat (size_s s + n) + unat (512 :: u32)"
    using nw a by (simp add: unat_add_lem [THEN iffD1])
  with a r sz show ?thesis by simp
qed

text \<open>
  Claim C5, as the code has it. \<open>s_alloc\<close> returns without touching the buffer exactly
  when \<open>size + n < rsize\<close> (the sum taken in \<open>u32\<close>); otherwise it asks the allocator for
  exactly \<open>size + n + 512\<close> bytes, and a refusal is reported with that number. In
  particular it also grows in the boundary case \<open>rsize - size = n\<close>. When
  \<open>size + n + 512\<close> stays below \<open>2^32\<close>, the capacity on return is at least \<open>size + n\<close>.
\<close>

theorem s_alloc_contract:
  "(s_alloc w s n = Inr (w', s') \<longrightarrow> unat (size_s s) + unat n + 512 < 2 ^ 32 \<longrightarrow>
      size_s s' = size_s s \<and> unat (size_s s) + unat n \<le> unat (rsize s'))
   \<and> (s_alloc w s n = Inr (w', s') \<longrightarrow> \<not> size_s s + n < rsize s \<longrightarrow>
      rsize s' = size_s s + n + 512 \<and> allocated s' = unat (size_s s + n + 512))
   \<and> (s_alloc w s n = Inl e \<longrightarrow>
      \<not> size_s s + n < rsize s \<and> e = NoMemError (size_s s + n + 512))
   \<and> (s_alloc w s n = Inr (w, s) \<longleftrightarrow> size_s s + n < rsize s)
   \<and> (unat (rsize s) = unat (size_s s) + unat n \<longrightarrow> s_alloc w s n \<noteq> Inr (w, s))"
proof (intro conjI impI)
  assume "s_alloc w s n = Inr (w', s')" and "unat (size_s s) + unat n + 512 < 2 ^ 32"
  then show "size_s s' = size_s s" "unat (size_s s) + unat n \<le> unat (rsize s')"
    using s_alloc_Inr_bound by blast+
next
  assume "s_alloc w s n = Inr (w', s')" and "\<not> size_s s + n < rsize s"
  then show "rsize s' = size_s s + n + 512" "allocated s' = unat (size_s s + n + 512)"
    by (auto simp: s_alloc_grow allocated_def split: if_splits)
next
  assume "s_alloc w s n = Inl e"
  then show "\<not> size_s s + n < rsize s" "e = NoMemError (size_s s + n + 512)"
    by (auto simp: s_alloc_def s_realloc_or_raise_def Let_def split: if_splits)
next
  show skip: "s_alloc w s n = Inr (w, s) \<longleftrightarrow> size_s s + n < rsize s"
  proof (cases "size_s s + n < rsize s")
    case True
    then show ?thesis by (simp add: s_alloc_skip)
  next
    case False
    have "s_alloc w s n \<noteq> Inr (w, s)"
    proof
      assume "s_alloc w s n = Inr (w, s)"
      with False have "w\<lparr>served := Suc (served w)\<rparr> = w"
        by (simp add: s_alloc_grow split: if_splits)
      with world_served_neq show False by blast
    qed
    with False show ?thesis by simp
  qed
  assume eq: "unat (rsize s) = unat (size_s s) + unat n"
  have "unat (size_s s) + unat n < 2 ^ 32"
    using unsigned_less [of "rsize s", where ?'a = nat] eq by simp
  then have "unat (size_s s + n) = unat (rsize s)"
    using eq by (simp add: unat_add_lem [THEN iffD1])
  then have "\<not> size_s s + n < rsize s" by (simp add: word_less_nat_alt)
  with skip show "s_alloc w s n \<noteq> Inr (w, s)" by simp
qed

theorem s_alloc_contract_witness:
  "\<exists>w' s'. s_alloc (generous []) empty_buffer 0 = Inr (w', s')
     \<and> unat (size_s empty_buffer) + unat (0 :: u32) \<le> unat (rsize s')
     \<and> rsize s' = 512 \<and> allocated s' = 512
     \<and> s_alloc (generous []) empty_buffer 0 \<noteq> Inr (generous [], empty_buffer)"
proof -
  obtain w' s' where r: "s_alloc (generous []) empty_buffer 0 = Inr (w', s')"
    by (simp add: s_alloc_grow generous_def empty_buffer_def)
  have e: "unat (rsize empty_buffer) = unat (size_s empty_buffer) + unat (0 :: u32)"
    by (simp add: empty_buffer_def)
  have g: "\<not> size_s empty_buffer + 0 < rsize empty_buffer" by (simp add: empty_buffer_def)
  have nw: "unat (size_s empty_buffer) + unat (0 :: u32) + 512 < 2 ^ 32"
    by (simp add: empty_buffer_def)
  note c = s_alloc_contract [of "generous []" empty_buffer 0 w' s']
  from c r nw have 1: "unat (size_s empty_buffer) + unat (0 :: u32) \<le> unat (rsize s')"
    by blast
  from c r g have 2: "rsize s' = size_s empty_buffer + 0 + 512"
    and 3: "allocated s' = unat (size_s empty_buffer + 0 + 512 :: u32)"
    by blast+
  from c e have 4: "s_alloc (generous []) empty_buffer 0 \<noteq> Inr (generous [], empty_buffer)"
    by blast
  from 2 have r2: "rsize s' = 512" by (simp add: empty_buffer_def)
  from 3 have r3: "allocated s' = 512" by (simp add: empty_buffer_def)
  from r 1 r2 r3 4 show ?thesis by blast
qed

text \<open>
  The claim as stated fails on the empty buffer with \<open>n = 0\<close>: the slack \<open>0\<close> covers
  the request, and the buffer is grown to 512 bytes with one allocation.
\<close>

theorem s_alloc_boundary_counterexample:
  "unat (rsize empty_buffer) - unat (size_s empty_buffer) = unat (0 :: u32)
   \<and> map_sum id (rsize \<circ> snd) (s_alloc (generous []) empty_buffer 0) = Inr 512
   \<and> map_sum id (served \<circ> fst) (s_alloc (generous []) empty_buffer 0) = Inr 1"
  by (simp add: s_alloc_def s_realloc_or_raise_def generous_def empty_buffer_def)

subsection \<open>Append\<close>

lemma s_alloc_Inr_cases:
  assumes "s_alloc w s n = Inr (w', s1)"
  shows "(size_s s + n < rsize s \<and> w' = w \<and> s1 = s)
       \<or> (\<not> size_s s + n < rsize s \<and> grants w (served w)
          \<and> w' = w\<lparr>served := Suc (served w)\<rparr>
          \<and> s1 = s\<lparr>data := Some (realloc (junk w (served w)) (data s) (unat (size_s s + n + 512))),
                    rsize := size_s s + n + 512\<rparr>)"
proof (cases "size_s s + n < rsize s")
  case True
  with assms show ?thesis by (simp add: s_alloc_skip)
next
  case False
  with assms show ?thesis by (simp add: s_alloc_grow split: if_splits)
qed

lemma s_alloc_pos: "s_alloc w s n = Inr (w', s') \<Longrightarrow> pos s' = pos s"
  by (drule s_alloc_Inr_cases) auto

lemma s_alloc_flags:
  "s_alloc w s n = Inr (w', s') \<Longrightarrow> flag_stream s' = flag_stream s \<and> input w' = input w"
  by (drule s_alloc_Inr_cases) auto

lemma s_alloc_storage_ok: "s_alloc w s n = Inr (w', s') \<Longrightarrow> storage_ok s \<Longrightarrow> allocated s' = unat (rsize s')"
  by (drule s_alloc_Inr_cases) (auto simp: storage_ok_def allocated_def)

lemma s_append_Inr:
  assumes "s_append w s suf n = Inr (w', s')"
  obtains s1 d where "s_alloc w s n = Inr (w', s1)" and "data s1 = Some d"
    and "unat n \<le> len suf" and "unat (size_s s) + unat n \<le> len d"
    and "s' = s1\<lparr>data := Some (d\<lparr>cell := (\<lambda>i. if unat (size_s s) \<le> i \<and> i < unat (size_s s) + unat n
                                            then cell suf (i - unat (size_s s)) else cell d i)\<rparr>),
                  size_s := size_s s + n, pos := pos s + n\<rparr>"
proof -
  from assms obtain s1 where a: "s_alloc w s n = Inr (w', s1)"
    by (auto simp: s_append_def split: sum.splits option.splits)
  from a have sz: "size_s s1 = size_s s" and ps: "pos s1 = pos s"
    by (simp_all add: s_alloc_size s_alloc_pos)
  from assms a obtain d where d: "data s1 = Some d"
    by (auto simp: s_append_def split: option.splits)
  from assms a d obtain d' where c: "COPY suf 0 d (unat (size_s s)) (unat n) = Some d'"
    and s': "s' = s1\<lparr>data := Some d', size_s := size_s s + n, pos := pos s + n\<rparr>"
    by (auto simp: s_append_def sz ps split: option.splits)
  from c have le1: "unat n \<le> len suf" and le2: "unat (size_s s) + unat n \<le> len d"
    and d': "d' = d\<lparr>cell := (\<lambda>i. if unat (size_s s) \<le> i \<and> i < unat (size_s s) + unat n
                                 then cell suf (i - unat (size_s s)) else cell d i)\<rparr>"
    by (simp_all add: COPY_Some cong: if_cong)
  show thesis by (rule that [OF a d le1 le2]) (simp add: s' d')
qed

lemma s_append_pos: "s_append w s b n = Inr (w', s') \<Longrightarrow> pos s' = pos s + n"
  by (erule s_append_Inr) (simp add: s_alloc_pos)

lemma map_cell_block_of: "map (cell (block_of b)) [0..<length b] = b"
  by (rule nth_equalityI) (simp_all add: block_of_def)

lemma map_shift_upt: "map (\<lambda>i. f (i - a)) [a..<a + n] = map f [0..<n]"
  by (rule nth_equalityI) simp_all

lemma s_append_returns:
  assumes ok: "storage_ok s" and g: "grants w (served w)" and src: "unat n \<le> len suf"
    and nw: "unat (size_s s) + unat n + 512 < 2 ^ 32"
  shows "\<exists>w' s'. s_append w s suf n = Inr (w', s')"
proof -
  from nw have a: "unat (size_s s + n) = unat (size_s s) + unat n"
    by (simp add: unat_add_lem [THEN iffD1])
  with nw have b: "unat (size_s s + n + 512) = unat (size_s s) + unat n + 512"
    by (simp add: unat_add_lem [THEN iffD1])
  show ?thesis
  proof (cases "size_s s + n < rsize s")
    case True
    with a ok have "unat (size_s s) + unat n < allocated s"
      by (simp add: storage_ok_def word_less_nat_alt)
    then obtain d where "data s = Some d" "unat (size_s s) + unat n \<le> len d"
      by (cases "data s") (auto simp: allocated_def)
    with True src show ?thesis by (simp add: s_append_def s_alloc_skip COPY_def)
  next
    case False
    with g src b show ?thesis by (simp add: s_append_def s_alloc_grow COPY_def)
  qed
qed

text \<open>
  Claim C7, as the code has it. An append that returns has stored \<open>b\<close> at
  \<open>data[s0 .. s0 + len b)\<close> and has added \<open>len b\<close> to \<open>size\<close> and to \<open>pos\<close> (both in
  \<open>u32\<close>). So \<open>pos\<close> ends at \<open>s0 + len b\<close> when it was at \<open>s0\<close> before, and not otherwise.
  On a consistent buffer the new \<open>size\<close> is \<open>s0 + len b\<close> without wrap-around.
\<close>

theorem s_append_contract:
  assumes ret: "s_append w s (block_of b) (word_of_nat (length b)) = Inr (w', s')"
    and lb: "length b < 2 ^ 32"
  shows "bytes s' (unat (size_s s)) (unat (size_s s) + length b) = b
       \<and> size_s s' = size_s s + word_of_nat (length b)
       \<and> pos s' = pos s + word_of_nat (length b)
       \<and> (pos s' = size_s s + word_of_nat (length b) \<longleftrightarrow> pos s = size_s s)
       \<and> (storage_ok s \<longrightarrow> unat (size_s s') = unat (size_s s) + length b)"
proof -
  have ul: "unat (word_of_nat (length b) :: u32) = length b"
    using lb by (simp add: unat_of_nat)
  from ret obtain s1 d where a: "s_alloc w s (word_of_nat (length b)) = Inr (w', s1)"
    and d: "data s1 = Some d"
    and fit: "unat (size_s s) + length b \<le> len d"
    and s': "s' = s1\<lparr>data := Some (d\<lparr>cell := (\<lambda>i. if unat (size_s s) \<le> i \<and> i < unat (size_s s) + length b
                                            then cell (block_of b) (i - unat (size_s s)) else cell d i)\<rparr>),
                  size_s := size_s s + word_of_nat (length b),
                  pos := pos s + word_of_nat (length b)\<rparr>"
    by (rule s_append_Inr) (simp add: ul)
  have "bytes s' (unat (size_s s)) (unat (size_s s) + length b)
        = map (\<lambda>i. cell (block_of b) (i - unat (size_s s))) [unat (size_s s)..<unat (size_s s) + length b]"
    by (simp add: s' bytes_def)
  also have "\<dots> = b" by (simp only: map_shift_upt map_cell_block_of)
  finally have 1: "bytes s' (unat (size_s s)) (unat (size_s s) + length b) = b" .
  have 2: "size_s s' = size_s s + word_of_nat (length b)" by (simp add: s')
  have 3: "pos s' = pos s + word_of_nat (length b)" by (simp add: s' s_alloc_pos [OF a])
  have 4: "pos s' = size_s s + word_of_nat (length b) \<longleftrightarrow> pos s = size_s s"
    by (simp add: 3)
  have 5: "unat (size_s s') = unat (size_s s) + length b" if ok: "storage_ok s"
  proof -
    from s_alloc_storage_ok [OF a ok] d have "len d = unat (rsize s1)"
      by (simp add: allocated_def)
    with fit have "unat (size_s s) + length b < 2 ^ 32"
      using unsigned_less [of "rsize s1", where ?'a = nat] by simp
    then show ?thesis using ul by (simp add: 2 unat_add_lem [THEN iffD1])
  qed
  from 1 2 3 4 5 show ?thesis by blast
qed

theorem s_append_contract_witness:
  "\<exists>w' s'. s_append (generous []) sample (block_of [7]) (word_of_nat (length [7 :: u8])) = Inr (w', s')
     \<and> bytes s' 3 4 = [7] \<and> size_s s' = 4 \<and> pos s' = 2"
proof -
  obtain w' s' where
    r: "s_append (generous []) sample (block_of [7]) (word_of_nat (length [7 :: u8])) = Inr (w', s')"
    by (simp add: s_append_def s_alloc_def s_realloc_or_raise_def COPY_def block_of_def
        generous_def sample_def empty_buffer_def realloc_def)
  have lb: "length [7 :: u8] < 2 ^ 32" by simp
  from s_append_contract [OF r lb] r show ?thesis
    by (simp add: sample_def)
qed

text \<open>
  The claim as stated fails on the buffer \<open>sample\<close> (\<open>size = 3\<close>, \<open>pos = 1\<close>): after
  appending one byte \<open>pos\<close> is 2, not \<open>3 + 1\<close>.
\<close>

theorem s_append_pos_counterexample:
  "size_s sample = 3 \<and> length [7 :: u8] = 1
   \<and> map_sum id (pos \<circ> snd) (s_append (generous []) sample (block_of [7]) 1) = Inr 2"
  by (simp add: s_append_def s_alloc_def s_realloc_or_raise_def COPY_def block_of_def
      generous_def sample_def empty_buffer_def realloc_def)

subsection \<open>Moving the cursor\<close>

text \<open>
  Claim C8. \<open>s_shift_position_bang\<close> adds \<open>n\<close> to \<open>pos\<close> in \<open>u32\<close> and returns \<open>n\<close>,
  whatever the flags, \<open>size\<close> and \<open>rsize\<close> are; it has no failing branch. On the empty
  buffer, moving by 1 leaves \<open>pos\<close> beyond \<open>size\<close>.
\<close>

theorem s_shift_position_bang_unchecked:
  "s_shift_position_bang s n = (s\<lparr>pos := pos s + n\<rparr>, n)
   \<and> unat (pos (fst (s_shift_position_bang s n))) = (unat (pos s) + unat n) mod 2 ^ 32
   \<and> size_s (fst (s_shift_position_bang s n)) = size_s s
   \<and> size_s (fst (s_shift_position_bang empty_buffer 1))
       < pos (fst (s_shift_position_bang empty_buffer 1))"
  by (simp add: s_shift_position_bang_def empty_buffer_def unat_word_ariths)

subsection \<open>Compaction\<close>

lemma s_shift_left_empty:
  "size_s s - pos s = 0 \<Longrightarrow> s_shift_left w s = Inr (w, s\<lparr>data := None, size_s := 0, rsize := 0\<rparr>)"
  by (simp add: s_shift_left_def)

lemma s_shift_left_Inr:
  assumes ret: "s_shift_left w s = Inr (w', s')" and ne: "size_s s - pos s \<noteq> 0"
  obtains d d' where "data s = Some d" and "data s' = Some d'"
    and "len d' = unat (size_s s - pos s)"
    and "unat (pos s) + unat (size_s s - pos s) \<le> len d"
    and "\<forall>i < unat (size_s s - pos s). cell d' i = cell d (unat (pos s) + i)"
    and "s' = s\<lparr>data := Some d', size_s := size_s s - pos s, rsize := size_s s - pos s\<rparr>"
    and "w' = w\<lparr>served := Suc (served w)\<rparr>"
proof -
  from ret ne obtain buf where
    a: "s_alloc_or_raise w (size_s s - pos s) = Inr (w', buf)"
    by (auto simp: s_shift_left_def Let_def split: sum.splits option.splits)
  then have w': "w' = w\<lparr>served := Suc (served w)\<rparr>"
    and buf: "len buf = unat (size_s s - pos s)"
    by (auto simp: s_alloc_or_raise_def s_realloc_or_raise_Inr)
  from ret ne a obtain d where d: "data s = Some d"
    by (auto simp: s_shift_left_def Let_def split: option.splits)
  from ret ne a d obtain d' where
    c: "COPY d (unat (pos s)) buf 0 (unat (size_s s - pos s)) = Some d'"
    and s': "s' = s\<lparr>data := Some d', size_s := size_s s - pos s, rsize := size_s s - pos s\<rparr>"
    by (auto simp: s_shift_left_def Let_def split: option.splits)
  from c have fit: "unat (pos s) + unat (size_s s - pos s) \<le> len d"
    and ld': "len d' = len buf"
    and cells: "\<forall>i < unat (size_s s - pos s). cell d' i = cell d (unat (pos s) + i)"
    by (auto simp: COPY_Some)
  show thesis
    by (rule that [OF d _ _ fit cells s' w']) (simp_all add: s' ld' buf)
qed

lemma s_shift_left_pos: "s_shift_left w s = Inr (w', s') \<Longrightarrow> pos s' = pos s"
  by (cases "size_s s - pos s = 0") (auto simp: s_shift_left_empty elim: s_shift_left_Inr)

lemma s_shift_left_sizes:
  "s_shift_left w s = Inr (w', s') \<Longrightarrow>
     size_s s' = size_s s - pos s \<and> rsize s' = size_s s - pos s"
  by (cases "size_s s - pos s = 0") (auto simp: s_shift_left_empty elim: s_shift_left_Inr)

lemma s_shift_left_allocated:
  assumes ret: "s_shift_left w s = Inr (w', s')"
  shows "allocated s' = unat (size_s s - pos s)"
proof (cases "size_s s - pos s = 0")
  case True
  with ret show ?thesis by (auto simp: s_shift_left_empty allocated_def)
next
  case False
  from ret False obtain d' where "data s' = Some d'" "len d' = unat (size_s s - pos s)"
    by (rule s_shift_left_Inr)
  then show ?thesis by (simp add: allocated_def)
qed

lemma s_shift_left_bytes:
  assumes ret: "s_shift_left w s = Inr (w', s')" and le: "pos s \<le> size_s s"
  shows "bytes s' 0 (unat (size_s s) - unat (pos s)) = bytes s (unat (pos s)) (unat (size_s s))"
proof (cases "size_s s - pos s = 0")
  case True
  then have "size_s s = pos s" by simp
  with ret True show ?thesis by (simp add: s_shift_left_empty bytes_def split: option.splits)
next
  case False
  from le have sub: "unat (size_s s - pos s) = unat (size_s s) - unat (pos s)"
    by (simp add: unat_sub)
  from le have le': "unat (pos s) \<le> unat (size_s s)" by (simp add: word_le_nat_alt)
  from ret False obtain d d' where d: "data s = Some d" and d': "data s' = Some d'"
    and cells: "\<forall>i < unat (size_s s - pos s). cell d' i = cell d (unat (pos s) + i)"
    by (rule s_shift_left_Inr)
  have "map (cell d') [0..<unat (size_s s) - unat (pos s)]
        = map (cell d) [unat (pos s)..<unat (size_s s)]"
    using cells le' by (intro nth_equalityI) (simp_all add: sub)
  then show ?thesis by (simp add: bytes_def d d')
qed

text \<open>
  Claim C2, as the code has it. On a buffer with \<open>pos \<le> size\<close>, a compaction that
  returns has moved \<open>data[pos..size)\<close> to the start of a block of exactly \<open>size - pos\<close>
  bytes and has set \<open>size\<close> and \<open>rsize\<close> to \<open>size - pos\<close>; with an empty residual the
  block is released and \<open>size = rsize = 0\<close>. It never writes \<open>pos\<close>: the cursor keeps its
  value in both branches.
\<close>

theorem s_shift_left_contract:
  assumes ret: "s_shift_left w s = Inr (w', s')" and le: "pos s \<le> size_s s"
  shows "bytes s' 0 (unat (size_s s) - unat (pos s)) = bytes s (unat (pos s)) (unat (size_s s))
       \<and> unat (size_s s') = unat (size_s s) - unat (pos s)
       \<and> rsize s' = size_s s'
       \<and> allocated s' = unat (size_s s) - unat (pos s)
       \<and> pos s' = pos s
       \<and> (pos s = size_s s \<longrightarrow> s' = s\<lparr>data := None, size_s := 0, rsize := 0\<rparr>)"
proof -
  from le have sub: "unat (size_s s - pos s) = unat (size_s s) - unat (pos s)"
    by (simp add: unat_sub)
  have 1: "bytes s' 0 (unat (size_s s) - unat (pos s)) = bytes s (unat (pos s)) (unat (size_s s))"
    by (rule s_shift_left_bytes [OF ret le])
  from s_shift_left_sizes [OF ret] sub
  have 2: "unat (size_s s') = unat (size_s s) - unat (pos s)" and 3: "rsize s' = size_s s'"
    by simp_all
  have 4: "allocated s' = unat (size_s s) - unat (pos s)"
    using s_shift_left_allocated [OF ret] sub by simp
  have 5: "pos s' = pos s" by (rule s_shift_left_pos [OF ret])
  have 6: "s' = s\<lparr>data := None, size_s := 0, rsize := 0\<rparr>" if "pos s = size_s s"
    using ret that by (simp add: s_shift_left_empty)
  from 1 2 3 4 5 6 show ?thesis by blast
qed

theorem s_shift_left_contract_witness:
  "\<exists>w' s'. s_shift_left (generous []) sample = Inr (w', s')
     \<and> bytes s' 0 2 = [20, 30] \<and> unat (size_s s') = 2 \<and> rsize s' = size_s s'
     \<and> allocated s' = 2 \<and> pos s' = 1"
proof -
  obtain w' s' where r: "s_shift_left (generous []) sample = Inr (w', s')"
    by (simp add: s_shift_left_def s_alloc_or_raise_def s_realloc_or_raise_def COPY_def
        block_of_def generous_def sample_def empty_buffer_def realloc_def)
  have le: "pos sample \<le> size_s sample" by (simp add: sample_def)
  have b: "bytes sample (Suc 0) 3 = [20, 30]"
    by (simp add: bytes_def sample_def block_of_def upt_rec)
  have u: "unat (size_s sample) = 3" "unat (pos sample) = Suc 0" "pos sample = 1"
    by (simp_all add: sample_def)
  from s_shift_left_contract [OF r le] r b show ?thesis
    by (simp add: u)
qed

text \<open>
  The claim as stated fails on \<open>sample\<close> (\<open>pos = 1\<close>, \<open>size = 3\<close>): after compaction the
  two bytes left are at the start, \<open>size = 2\<close>, and \<open>pos\<close> is still 1, not 0.
\<close>

theorem s_shift_left_pos_counterexample:
  "pos sample = 1 \<and> size_s sample = 3
   \<and> map_sum id (pos \<circ> snd) (s_shift_left (generous []) sample) = Inr 1
   \<and> map_sum id (size_s \<circ> snd) (s_shift_left (generous []) sample) = Inr 2"
  by (simp add: s_shift_left_def s_alloc_or_raise_def s_realloc_or_raise_def COPY_def
      block_of_def generous_def sample_def empty_buffer_def realloc_def)





subsection \<open>The bounds guard on a bounded buffer\<close>

lemma s_get_p_at_pos_bounded:
  "\<not> flag_stream s \<Longrightarrow>
   s_get_p_at_pos w s p req =
     (if size_s s \<le> p + req then Inl (RangeError_bounds p req (size_s s)) else Inr (w, s, p))"
  by (simp add: s_get_p_at_pos_def)

lemma load_Some_iff:
  "0 < n \<Longrightarrow> load (data s) off n = Some v \<longleftrightarrow> off + n \<le> allocated s \<and> v = bytes s off (off + n)"
  by (auto simp: load_def allocated_def bytes_def split: option.splits)

lemma load_None_iff:
  "0 < n \<Longrightarrow> load (data s) off n = None \<longleftrightarrow> \<not> off + n \<le> allocated s"
  by (auto simp: load_def allocated_def split: option.splits)

lemma s_get_fixed_bang_bounded:
  assumes "\<not> flag_stream s"
  shows "s_get_fixed_bang sz w s =
     (if size_s s \<le> pos s + (sz - 1) then Inl (RangeError_bounds (pos s) (sz - 1) (size_s s))
      else case load (data s) (unat (pos s)) (unat sz) of
             None \<Rightarrow> Inl Undefined
           | Some v \<Rightarrow> Inr (w, s\<lparr>pos := pos s + sz\<rparr>, v))"
  using assms by (simp add: s_get_fixed_bang_def s_get_p_at_pos_bounded Let_def)

lemma s_get_u8_bang_bounded:
  assumes "\<not> flag_stream s"
  shows "s_get_u8_bang w s =
     (if size_s s \<le> pos s + (1 - 1) then Inl (RangeError_bounds (pos s) (1 - 1) (size_s s))
      else case load (data s) (unat (pos s)) (unat (1 :: u32)) of
             None \<Rightarrow> Inl Undefined
           | Some v \<Rightarrow> Inr (w, s\<lparr>pos := pos s + 1\<rparr>, hd v))"
  using assms
  by (auto simp: s_get_u8_bang_def s_get_u8_def s_get_p_def s_get_p_at_pos_bounded load_def
      split: option.splits list.splits)

lemma guard_nowrap:
  assumes sz: "0 < unat (sz :: u32)" and nw: "unat p + unat sz \<le> 2 ^ 32"
  shows "size_s s \<le> p + (sz - 1) \<longleftrightarrow> \<not> unat p + unat sz \<le> unat (size_s s)"
proof -
  from sz have "1 \<le> sz" by (simp add: word_le_nat_alt)
  then have m1: "unat (sz - 1) = unat sz - 1" by (simp add: unat_sub)
  with nw sz have "unat p + unat (sz - 1) < 2 ^ 32" by simp
  then have "unat (p + (sz - 1)) = unat p + unat (sz - 1)"
    by (simp add: unat_add_lem [THEN iffD1])
  with m1 sz show ?thesis by (auto simp: word_le_nat_alt)
qed

lemma load_eq:
  "0 < n \<Longrightarrow>
   load (data s) off n = (if off + n \<le> allocated s then Some (bytes s off (off + n)) else None)"
  by (auto simp: load_def allocated_def bytes_def split: option.splits)

lemma typed_read_bounded_eq:
  assumes tr: "typed_read c" and b: "\<not> flag_stream s" and ld: "0 < unat ld"
  shows "do_call ld w s c =
     (if size_s s \<le> pos s + (sizeof_read ld c - 1)
      then Inl (RangeError_bounds (pos s) (sizeof_read ld c - 1) (size_s s))
      else if unat (pos s) + unat (sizeof_read ld c) \<le> allocated s
      then Inr (w, s\<lparr>pos := pos s + sizeof_read ld c\<rparr>)
      else Inl Undefined)"
proof (cases c)
  case ReadU8
  with b show ?thesis by (simp add: s_get_u8_bang_bounded load_eq)
next
  case ReadU32
  with b show ?thesis by (simp add: s_get_u32_bang_def s_get_fixed_bang_bounded load_eq)
next
  case ReadF32
  with b show ?thesis by (simp add: s_get_float_bang_def s_get_fixed_bang_bounded load_eq)
next
  case ReadF64
  with b show ?thesis by (simp add: s_get_double_bang_def s_get_fixed_bang_bounded load_eq)
next
  case ReadExtendedFloat
  with b ld show ?thesis
    by (simp add: s_get_long_double_bang_def s_get_fixed_bang_bounded load_eq)
qed (use tr in simp_all)

lemma sizeof_read_pos: "typed_read c \<Longrightarrow> 0 < unat ld \<Longrightarrow> 0 < unat (sizeof_read ld c)"
  by (cases c) simp_all

text \<open>
  Claim C9, as the code has it. Every typed read hands \<open>sizeof - 1\<close> to the guard, which
  adds it to \<open>pos\<close> in \<open>u32\<close>. As long as \<open>pos + sizeof\<close> does not exceed \<open>2^32\<close> the
  guard lets the read through exactly when \<open>pos + sizeof \<le> size\<close>, so also when the read
  ends at the end of the valid bytes, and raises the range error with the length
  \<open>sizeof - 1\<close> otherwise. A read that is let through on a buffer whose valid bytes lie
  inside its block changes nothing but \<open>pos\<close>, which grows by \<open>sizeof\<close>.
\<close>

theorem typed_read_guard:
  assumes tr: "typed_read c" and b: "\<not> flag_stream s" and ld: "0 < unat ld"
    and nw: "unat (pos s) + unat (sizeof_read ld c) \<le> 2 ^ 32"
  shows "s_get_p_at_pos w s (pos s) (sizeof_read ld c - 1) =
            (if unat (pos s) + unat (sizeof_read ld c) \<le> unat (size_s s)
             then Inr (w, s, pos s)
             else Inl (RangeError_bounds (pos s) (sizeof_read ld c - 1) (size_s s)))
       \<and> (\<not> unat (pos s) + unat (sizeof_read ld c) \<le> unat (size_s s) \<longrightarrow>
            do_call ld w s c = Inl (RangeError_bounds (pos s) (sizeof_read ld c - 1) (size_s s)))
       \<and> (unat (pos s) + unat (sizeof_read ld c) \<le> unat (size_s s) \<longrightarrow> valid_inside s \<longrightarrow>
            do_call ld w s c = Inr (w, s\<lparr>pos := pos s + sizeof_read ld c\<rparr>)
            \<and> unat (pos s + sizeof_read ld c) = unat (pos s) + unat (sizeof_read ld c))
       \<and> (unat (pos s) + unat (sizeof_read ld c) = unat (size_s s) \<longrightarrow> valid_inside s \<longrightarrow>
            do_call ld w s c = Inr (w, s\<lparr>pos := size_s s\<rparr>))
       \<and> (valid_inside s \<longrightarrow>
            ((\<exists>w' s'. do_call ld w s c = Inr (w', s'))
               \<longleftrightarrow> unat (pos s) + unat (sizeof_read ld c) \<le> unat (size_s s)))"
proof -
  let ?n = "sizeof_read ld c"
  let ?A = "unat (pos s) + unat ?n \<le> unat (size_s s)"
  have n: "0 < unat ?n" by (rule sizeof_read_pos [OF tr ld])
  note g = guard_nowrap [OF n nw, of s]
  note eq = typed_read_bounded_eq [OF tr b ld, of w]
  have 1: "s_get_p_at_pos w s (pos s) (?n - 1) =
            (if ?A then Inr (w, s, pos s)
             else Inl (RangeError_bounds (pos s) (?n - 1) (size_s s)))"
    using b g by (simp add: s_get_p_at_pos_bounded)
  have 2: "do_call ld w s c = Inl (RangeError_bounds (pos s) (?n - 1) (size_s s))" if "\<not> ?A"
    using that g eq by simp
  have succ: "do_call ld w s c = Inr (w, s\<lparr>pos := pos s + ?n\<rparr>)"
    if a: ?A and v: "valid_inside s"
  proof -
    from a v have "unat (pos s) + unat ?n \<le> allocated s" by (simp add: valid_inside_def)
    with a g eq show ?thesis by simp
  qed
  have adv: "unat (pos s + ?n) = unat (pos s) + unat ?n" if ?A
  proof -
    from that have "unat (pos s) + unat ?n < 2 ^ 32"
      using unsigned_less [of "size_s s", where ?'a = nat] by simp
    then show ?thesis by (simp add: unat_add_lem [THEN iffD1])
  qed
  have 4: "do_call ld w s c = Inr (w, s\<lparr>pos := size_s s\<rparr>)"
    if h: "unat (pos s) + unat ?n = unat (size_s s)" and v: "valid_inside s"
  proof -
    from h adv have "unat (pos s + ?n) = unat (size_s s)" by simp
    then have "pos s + ?n = size_s s" by (simp add: word_unat_eq_iff)
    with succ h v show ?thesis by simp
  qed
  have 5: "(\<exists>w' s'. do_call ld w s c = Inr (w', s')) \<longleftrightarrow> ?A" if v: "valid_inside s"
    using succ [OF _ v] 2 by (cases ?A) auto
  from 1 2 succ adv 4 5 show ?thesis by blast
qed

theorem typed_read_guard_witness:
  "typed_read ReadU32 \<and> \<not> flag_stream borrowed_four \<and> valid_inside borrowed_four
   \<and> 0 < unat (16 :: u32)
   \<and> unat (pos borrowed_four) + unat (sizeof_read 16 ReadU32) \<le> 2 ^ 32
   \<and> unat (pos borrowed_four) + unat (sizeof_read 16 ReadU32) = unat (size_s borrowed_four)
   \<and> do_call 16 (generous []) borrowed_four ReadU32
       = Inr (generous [], borrowed_four\<lparr>pos := 4\<rparr>)
   \<and> s_get_p_at_pos (generous []) borrowed_four 0 3 = Inr (generous [], borrowed_four, 0)
   \<and> do_call 16 (generous []) borrowed_four ReadF64 = Inl (RangeError_bounds 0 7 4)"
proof -
  have tr: "typed_read ReadU32" "typed_read ReadF64" by simp_all
  have b: "\<not> flag_stream borrowed_four" by (simp add: borrowed_four_def empty_buffer_def)
  have v: "valid_inside borrowed_four"
    by (simp add: valid_inside_def allocated_def borrowed_four_def empty_buffer_def block_of_def)
  have ld: "0 < unat (16 :: u32)" by simp
  have z: "size_s borrowed_four = 4" "pos borrowed_four = 0"
    by (simp_all add: borrowed_four_def empty_buffer_def)
  have nw: "unat (pos borrowed_four) + unat (sizeof_read 16 ReadU32) \<le> 2 ^ 32"
    "unat (pos borrowed_four) + unat (sizeof_read 16 ReadF64) \<le> 2 ^ 32"
    by (simp_all add: z)
  have h: "unat (pos borrowed_four) + unat (sizeof_read 16 ReadU32) = unat (size_s borrowed_four)"
    by (simp add: z)
  note c1 = typed_read_guard [OF tr(1) b ld nw(1), of "generous []"]
  from c1 h v z have 1: "do_call 16 (generous []) borrowed_four ReadU32
       = Inr (generous [], borrowed_four\<lparr>pos := 4\<rparr>)"
    by simp
  from c1 z have 2: "s_get_p_at_pos (generous []) borrowed_four 0 3 = Inr (generous [], borrowed_four, 0)"
    by simp
  have n: "\<not> unat (pos borrowed_four) + unat (sizeof_read 16 ReadF64) \<le> unat (size_s borrowed_four)"
    by (simp add: z)
  note c2 = typed_read_guard [OF tr(2) b ld nw(2), of "generous []"]
  from c2 n z have 3: "do_call 16 (generous []) borrowed_four ReadF64 = Inl (RangeError_bounds 0 7 4)"
    by simp
  from tr(1) b v ld nw(1) h 1 2 3 show ?thesis by blast
qed

text \<open>
  The claim as stated fails where \<open>pos + sizeof - 1\<close> reaches \<open>2^32\<close>. With \<open>size = 4\<close>
  and \<open>pos = 2^32 - 2\<close> the guard of a \<open>u32\<close> read compares the wrapped sum 1 with 4 and
  returns the pointer, although \<open>pos + 4 > size\<close>: no range error is raised. On the
  four-byte block the read through that pointer leaves the block; on a block of
  \<open>2^32 + 10\<close> bytes the read returns and \<open>pos\<close> wraps to 2.
\<close>

theorem typed_read_wrap_counterexample:
  "\<not> flag_stream near_wrap \<and> size_s near_wrap = 4 \<and> unat (pos near_wrap) = 4294967294
   \<and> s_get_p_at_pos (generous []) near_wrap (pos near_wrap) (4 - 1)
        = Inr (generous [], near_wrap, pos near_wrap)
   \<and> do_call 16 (generous []) near_wrap ReadU32 = Inl Undefined
   \<and> \<not> flag_stream wide_buffer \<and> size_s wide_buffer = 4 \<and> unat (pos wide_buffer) = 4294967294
   \<and> do_call 16 (generous []) wide_buffer ReadU32 = Inr (generous [], wide_buffer\<lparr>pos := 2\<rparr>)"
  by (simp add: near_wrap_def wide_buffer_def four_bytes_def empty_buffer_def block_of_def
      s_get_p_at_pos_def s_get_u32_bang_def s_get_fixed_bang_def load_def Let_def)

subsection \<open>The fill loop\<close>

text \<open>
  The loop in terms of its body, and the induction that follows it: a property holds of
  every state of the loop when it holds where the loop stops and is carried over every
  pass that goes on.
\<close>

lemma s_read_stream_loop_unfold:
  "s_read_stream_loop w s e p0 =
     (if size_s s < e then
        (case loop_body w s e of
           Inl x \<Rightarrow> Inl x
         | Inr (w', s', rc) \<Rightarrow>
             if rc \<le> 0 then Inr (w', s', - 1) else s_read_stream_loop w' s' e p0)
      else Inr (w, s\<lparr>pos := p0\<rparr>, 1))"
  by (subst s_read_stream_loop.simps)
     (simp add: loop_body_def Let_def split: sum.splits prod.splits)

lemma s_read_stream_loop_induct [consumes 0, case_names stop pass]:
  assumes stop: "\<And>w s. \<not> size_s s < e \<Longrightarrow> P w s"
    and pass: "\<And>w s. size_s s < e \<Longrightarrow>
                 (\<And>w' s' rc. loop_body w s e = Inr (w', s', rc) \<Longrightarrow> 0 < rc \<Longrightarrow> P w' s') \<Longrightarrow> P w s"
  shows "P w s"
proof -
  have "e' = e \<Longrightarrow> P w s" for e' and p0 :: u32
  proof (induction w s e' p0 rule: s_read_stream_loop.induct)
    case (1 w s e' p0)
    show ?case
    proof (cases "size_s s < e")
      case False
      then show ?thesis by (rule stop)
    next
      case True
      show ?thesis
      proof (rule pass [OF True])
        fix w' s' rc
        assume b: "loop_body w s e = Inr (w', s', rc)" and rc: "0 < rc"
        from b obtain w1 buf where a: "s_alloc_or_raise w (size_s s - (e - size_s s)) = Inr (w1, buf)"
          by (auto simp: loop_body_def Let_def split: sum.splits)
        obtain r bs rest where rd: "read_fd (input w1) (unat (e - size_s s)) = (r, bs, rest)"
          by (cases "read_fd (input w1) (unat (e - size_s s))") auto
        from b a rd rc have nb: "\<not> len buf < length bs"
          and rc': "rc = sint (word_of_int r :: u32)"
          and ap: "s_append (w1\<lparr>input := rest\<rparr>) s (fill buf bs) (word_of_int rc) = Inr (w', s')"
          by (auto simp: loop_body_def Let_def split: if_splits sum.splits)
        from rc rc' have nrc: "\<not> sint (word_of_int r :: u32) \<le> 0" by simp
        show "P w' s'"
          by (rule "1.IH" [of "e - size_s s" "(w1, buf)" w1 buf r "(bs, rest)" bs rest rc
                "(w', s')" w' s'])
             (use True \<open>e' = e\<close> a rd nb nrc ap rc' in simp_all)
      qed
    qed
  qed
  then show ?thesis by simp
qed

lemma bytes_prefix:
  assumes "bytes a 0 m = bytes b 0 m" and "n \<le> m"
  shows "bytes a 0 n = bytes b 0 n"
proof -
  have tk: "bytes x 0 n = take n (bytes x 0 m)" for x
    using \<open>n \<le> m\<close> by (simp add: bytes_def take_map split: option.splits)
  show ?thesis by (simp add: tk assms)
qed

lemma s_alloc_same_flags: "s_alloc w s n = Inr (w', s') \<Longrightarrow> same_flags s s'"
  by (drule s_alloc_Inr_cases) (auto simp: same_flags_def)

lemma s_append_fields:
  assumes "s_append w s suf n = Inr (w', s')"
  shows "same_flags s s'" and "input w' = input w"
proof -
  from assms obtain s1 d where a: "s_alloc w s n = Inr (w', s1)"
    and s': "s' = s1\<lparr>data := Some (d\<lparr>cell := (\<lambda>i. if unat (size_s s) \<le> i \<and> i < unat (size_s s) + unat n
                                            then cell suf (i - unat (size_s s)) else cell d i)\<rparr>),
                  size_s := size_s s + n, pos := pos s + n\<rparr>"
    by (rule s_append_Inr)
  from s_alloc_same_flags [OF a] show "same_flags s s'" by (simp add: s' same_flags_def)
  from s_alloc_flags [OF a] show "input w' = input w" by simp
qed

lemma s_append_storage_ok:
  assumes ap: "s_append w s suf n = Inr (w', s')" and ok: "storage_ok s"
  shows "storage_ok s'" and "unat (size_s s') = unat (size_s s) + unat n"
    and "bytes s' 0 (unat (size_s s)) = bytes s 0 (unat (size_s s))"
proof -
  from ap obtain s1 d where a: "s_alloc w s n = Inr (w', s1)"
    and d: "data s1 = Some d"
    and fit: "unat (size_s s) + unat n \<le> len d"
    and s': "s' = s1\<lparr>data := Some (d\<lparr>cell := (\<lambda>i. if unat (size_s s) \<le> i \<and> i < unat (size_s s) + unat n
                                            then cell suf (i - unat (size_s s)) else cell d i)\<rparr>),
                  size_s := size_s s + n, pos := pos s + n\<rparr>"
    by (rule s_append_Inr)
  from s_alloc_storage_ok [OF a ok] d have ld: "len d = unat (rsize s1)"
    by (simp add: allocated_def)
  with fit have nw: "unat (size_s s) + unat n < 2 ^ 32"
    using unsigned_less [of "rsize s1", where ?'a = nat] by simp
  then have sz: "unat (size_s s + n) = unat (size_s s) + unat n"
    by (simp add: unat_add_lem [THEN iffD1])
  show "storage_ok s'" using ld fit sz by (simp add: storage_ok_def allocated_def s')
  show "unat (size_s s') = unat (size_s s) + unat n" using sz by (simp add: s')
  have old: "map (cell d) [0..<unat (size_s s)] = bytes s 0 (unat (size_s s))"
  proof -
    from s_alloc_Inr_cases [OF a] show ?thesis
    proof
      assume "size_s s + n < rsize s \<and> w' = w \<and> s1 = s"
      with d show ?thesis by (simp add: bytes_def)
    next
      assume g: "\<not> size_s s + n < rsize s \<and> grants w (served w)
          \<and> w' = w\<lparr>served := Suc (served w)\<rparr>
          \<and> s1 = s\<lparr>data := Some (realloc (junk w (served w)) (data s) (unat (size_s s + n + 512))),
                    rsize := size_s s + n + 512\<rparr>"
      show ?thesis
      proof (cases "data s")
        case None
        with ok have "unat (size_s s) = 0" by (simp add: storage_ok_def allocated_def)
        with None show ?thesis by (simp add: bytes_def)
      next
        case (Some d0)
        with ok have "unat (size_s s) \<le> len d0" by (simp add: storage_ok_def allocated_def)
        moreover from g d Some have "d = realloc (junk w (served w)) (Some d0) (unat (size_s s + n + 512))"
          by auto
        ultimately show ?thesis using Some by (simp add: bytes_def cell_realloc_old)
      qed
    qed
  qed
  have "bytes s' 0 (unat (size_s s)) = map (cell d) [0..<unat (size_s s)]"
    unfolding bytes_def s' by (intro nth_equalityI) simp_all
  with old show "bytes s' 0 (unat (size_s s)) = bytes s 0 (unat (size_s s))" by simp
qed

lemma loop_body_Inr:
  assumes lt: "size_s s < e" and b: "loop_body w s e = Inr (w', s', rc)"
  obtains (fail) "rc \<le> 0" and "s' = s"
  | (pass) n where "0 < rc" and "unat n = nat rc" and "unat (size_s s) + unat n \<le> unat e"
      and "0 < unat n"
      and "size_s s' = size_s s + n" and "pos s' = pos s + n" and "same_flags s s'"
      and "storage_ok s \<Longrightarrow> storage_ok s'"
      and "storage_ok s \<Longrightarrow> bytes s' 0 (unat (size_s s)) = bytes s 0 (unat (size_s s))"
proof -
  from b obtain w1 buf where a: "s_alloc_or_raise w (size_s s - (e - size_s s)) = Inr (w1, buf)"
    by (auto simp: loop_body_def Let_def split: sum.splits)
  obtain r bs rest where rd: "read_fd (input w1) (unat (e - size_s s)) = (r, bs, rest)"
    by (cases "read_fd (input w1) (unat (e - size_s s))") auto
  show thesis
  proof (cases "rc \<le> 0")
    case True
    with b a rd have "s' = s"
      by (auto simp: loop_body_def Let_def split: if_splits sum.splits)
    with True show ?thesis by (rule fail)
  next
    case False
    with b a rd have rc: "rc = sint (word_of_int r :: u32)"
      and ap: "s_append (w1\<lparr>input := rest\<rparr>) s (fill buf bs) (word_of_int rc) = Inr (w', s')"
      by (auto simp: loop_body_def Let_def split: if_splits sum.splits)
    from False rc have rc0: "0 < sint (word_of_int r :: u32)" by simp
    from stream_progress [OF lt rd rc0]
    have p: "0 < length bs" and bnd: "unat (size_s s) + length bs \<le> unat e"
      and u: "unat (word_of_int r :: u32) = length bs"
      by blast+
    have wr: "(word_of_int rc :: u32) = word_of_int r" by (simp add: rc)
    have "uint (word_of_int r :: u32) = sint (word_of_int r :: u32)"
      using uint_sint [of "word_of_int r :: u32"] sint_lt [of "word_of_int r :: u32"] rc0
      by (simp add: take_bit_int_eq_self)
    then have un: "unat (word_of_int r :: u32) = nat rc"
      by (simp add: rc unat_eq_nat_uint)
    note ap' = ap [unfolded wr]
    show ?thesis
    proof (rule pass [of "word_of_int r"])
      show "0 < rc" using False by simp
      show "unat (word_of_int r :: u32) = nat rc" by (rule un)
      show "unat (size_s s) + unat (word_of_int r :: u32) \<le> unat e" using bnd u by simp
      show "0 < unat (word_of_int r :: u32)" using p u by simp
      show "size_s s' = size_s s + word_of_int r" by (rule s_append_size [OF ap'])
      show "pos s' = pos s + word_of_int r" by (rule s_append_pos [OF ap'])
      show "same_flags s s'" by (rule s_append_fields(1) [OF ap])
      show "storage_ok s'" if "storage_ok s" using s_append_storage_ok(1) [OF ap that] .
      show "bytes s' 0 (unat (size_s s)) = bytes s 0 (unat (size_s s))" if "storage_ok s"
        using s_append_storage_ok(3) [OF ap that] .
    qed
  qed
qed

lemma s_append_Inl: "s_append w s suf n = Inl x \<Longrightarrow> oom_or_undefined x"
  by (auto simp: s_append_def s_alloc_def s_realloc_or_raise_def Let_def oom_or_undefined_def
      split: sum.splits option.splits if_splits)

lemma loop_body_Inl: "loop_body w s e = Inl x \<Longrightarrow> oom_or_undefined x"
  by (auto simp: loop_body_def Let_def s_alloc_or_raise_def s_realloc_or_raise_def
      oom_or_undefined_def
      split: sum.splits prod.splits if_splits dest!: s_append_Inl)

lemma s_read_stream_loop_Inl: "s_read_stream_loop w s e p0 = Inl x \<Longrightarrow> oom_or_undefined x"
proof (induction w s rule: s_read_stream_loop_induct [where e = e])
  case (stop w s)
  then show ?case by (simp add: s_read_stream_loop_unfold [of w s])
next
  case (pass w s)
  from pass.prems pass.hyps show ?case
    by (subst (asm) s_read_stream_loop_unfold)
       (auto split: sum.splits if_splits dest: loop_body_Inl pass.IH)
qed

lemma fill_result_stop: "\<not> size_s s < e \<Longrightarrow> fill_result s e p0 (s\<lparr>pos := p0\<rparr>) 1"
  by (simp add: fill_result_def storage_ok_def allocated_def bytes_def same_flags_def)

lemma fill_result_fail: "size_s s < e \<Longrightarrow> fill_result s e p0 s (- 1)"
  by (simp add: fill_result_def same_flags_def)

lemma fill_result_pass:
  assumes n: "unat (size_s s) + unat n \<le> unat e" "0 < unat (n :: u32)"
    and sz1: "size_s s1 = size_s s + n" and ps1: "pos s1 = pos s + n"
    and fl: "same_flags s s1"
    and ok: "storage_ok s \<Longrightarrow> storage_ok s1"
    and by1: "storage_ok s \<Longrightarrow> bytes s1 0 (unat (size_s s)) = bytes s 0 (unat (size_s s))"
    and r: "fill_result s1 e p0 s' rc"
  shows "fill_result s e p0 s' rc"
proof -
  have "unat (size_s s) + unat n < 2 ^ 32"
    using n unsigned_less [of e, where ?'a = nat] by simp
  then have u1: "unat (size_s s1) = unat (size_s s) + unat n"
    by (simp add: sz1 unat_add_lem [THEN iffD1])
  from r have a: "(rc = 1 \<and> pos s' = p0 \<and> e \<le> size_s s')
        \<or> (rc = - 1 \<and> size_s s' < e \<and> pos s' = pos s1 + (size_s s' - size_s s1))"
    and b: "unat (size_s s1) \<le> unat (size_s s')"
    and c: "same_flags s1 s'"
    and d: "storage_ok s1 \<longrightarrow>
          storage_ok s' \<and> bytes s' 0 (unat (size_s s1)) = bytes s1 0 (unat (size_s s1))"
    by (simp_all add: fill_result_def)
  from a have a': "(rc = 1 \<and> pos s' = p0 \<and> e \<le> size_s s')
        \<or> (rc = - 1 \<and> size_s s' < e \<and> pos s' = pos s + (size_s s' - size_s s))"
    by (auto simp: sz1 ps1)
  from b u1 have b': "unat (size_s s) \<le> unat (size_s s')" by simp
  from c fl have c': "same_flags s s'" by (simp add: same_flags_def)
  have d': "storage_ok s' \<and> bytes s' 0 (unat (size_s s)) = bytes s 0 (unat (size_s s))"
    if k: "storage_ok s"
  proof -
    from d ok [OF k] have k': "storage_ok s'"
      and e: "bytes s' 0 (unat (size_s s1)) = bytes s1 0 (unat (size_s s1))" by simp_all
    from bytes_prefix [OF e, of "unat (size_s s)"] u1 by1 [OF k] k' show ?thesis by simp
  qed
  from a' b' c' d' show ?thesis unfolding fill_result_def by blast
qed

lemma s_read_stream_loop_Inr:
  "s_read_stream_loop w s e p0 = Inr (w', s', rc) \<Longrightarrow> fill_result s e p0 s' rc"
proof (induction w s rule: s_read_stream_loop_induct [where e = e])
  case (stop w s)
  then show ?case by (auto simp: s_read_stream_loop_unfold [of w s] fill_result_stop)
next
  case (pass w s)
  note lt = \<open>size_s s < e\<close>
  from pass.prems lt obtain w1 s1 rc1 where b: "loop_body w s e = Inr (w1, s1, rc1)"
    and rest: "if rc1 \<le> 0 then w' = w1 \<and> s' = s1 \<and> rc = - 1
               else s_read_stream_loop w1 s1 e p0 = Inr (w', s', rc)"
    by (subst (asm) s_read_stream_loop_unfold) (auto split: sum.splits if_splits)
  from lt b show ?case
  proof (cases rule: loop_body_Inr)
    case fail
    with rest lt show ?thesis by (simp add: fill_result_fail)
  next
    case (pass n)
    with rest have "s_read_stream_loop w1 s1 e p0 = Inr (w', s', rc)" by simp
    from pass.IH [OF b \<open>0 < rc1\<close> this] have fr: "fill_result s1 e p0 s' rc" .
    show ?thesis
      by (rule fill_result_pass [OF pass(3) pass(4) pass(5) pass(6) pass(7) pass(8) pass(9) fr])
  qed
qed

lemma s_read_stream_Inr:
  "s_read_stream w s e = Inr (w', s', rc) \<Longrightarrow> fill_result s e (pos s) s' rc"
  unfolding s_read_stream_def by (rule s_read_stream_loop_Inr)

lemma s_read_stream_Inl: "s_read_stream w s e = Inl x \<Longrightarrow> oom_or_undefined x"
  unfolding s_read_stream_def by (rule s_read_stream_loop_Inl)

lemma four_streaming_fill_ok:
  "map_sum id (\<lambda>(w, s, rc). (rc, pos s, size_s s, bytes s 0 6))
     (s_read_stream (generous [Bytes [5, 6]]) four_streaming 6) = Inr (1, 0, 6, [1, 2, 3, 4, 5, 6])"
  by (simp add: s_read_stream_def s_read_stream_loop.simps s_alloc_or_raise_def
      s_realloc_or_raise_def realloc_def s_append_def s_alloc_def COPY_def fill_def Let_def
      four_streaming_def four_bytes_def empty_buffer_def generous_def block_of_def bytes_def
      upt_rec)

subsection \<open>The bounds guard\<close>

lemma s_get_p_at_pos_inside: "p + req < size_s s \<Longrightarrow> s_get_p_at_pos w s p req = Inr (w, s, p)"
  by (simp add: s_get_p_at_pos_def not_le [symmetric])

lemma s_get_p_at_pos_streaming:
  "flag_stream s \<Longrightarrow> size_s s \<le> p + req \<Longrightarrow>
   s_get_p_at_pos w s p req =
     (case s_read_stream w s (p + req + 1) of
        Inl x \<Rightarrow> Inl x
      | Inr (w', s', rc) \<Rightarrow> if rc < 0 then Inl (RangeError_stream req) else Inr (w', s', p))"
  by (simp add: s_get_p_at_pos_def)

lemma u32_add_nowrap:
  "unat p + unat req < 2 ^ 32 \<Longrightarrow> unat (p + req) = unat p + unat req" for p req :: u32
  by (simp add: unat_add_lem [THEN iffD1])

lemma s_read_stream_pull:
  assumes "size_s s < e"
  shows "s_read_stream w s e =
     (case loop_body w s e of
        Inl x \<Rightarrow> Inl x
      | Inr (w', s', rc) \<Rightarrow>
          if rc \<le> 0 then Inr (w', s', - 1) else s_read_stream_loop w' s' e (pos s))"
  using assms by (simp add: s_read_stream_def s_read_stream_loop_unfold [of w s])

lemma four_streaming_fill_fails:
  "map_sum id (\<lambda>(w, s, rc). (rc, pos s, size_s s, bytes s 0 5))
     (s_read_stream (generous [Bytes [5]]) four_streaming 6) = Inr (- 1, 1, 5, [1, 2, 3, 4, 5])"
  by (simp add: s_read_stream_def s_read_stream_loop.simps s_alloc_or_raise_def
      s_realloc_or_raise_def realloc_def s_append_def s_alloc_def COPY_def fill_def Let_def
      four_streaming_def four_bytes_def empty_buffer_def generous_def block_of_def bytes_def
      upt_rec)

text \<open>
  Claim C3, as the code has it. The guard adds \<open>offset\<close> and \<open>length\<close> in \<open>u32\<close>, so the
  claim holds for the requests whose sum stays below \<open>2^32\<close>. On a bounded buffer such
  a request with \<open>size \<le> offset + length\<close> raises the range error that carries
  \<open>offset\<close>, \<open>length\<close> and \<open>size\<close>. A request with \<open>offset + length < size\<close> returns the
  pointer to \<open>data[offset]\<close> and leaves the buffer, \<open>pos\<close> included, as it was; the
  bytes \<open>data[offset .. offset + length]\<close> behind that pointer are valid bytes, inside
  the block. On a streaming buffer a request with \<open>size \<le> offset + length\<close> and
  \<open>offset + length + 1 < 2^32\<close> makes at least one pass of the fill loop with the target
  \<open>offset + length + 1\<close>: the range error is raised exactly when the fill returns a
  negative result, and when it returns 1 the request returns the pointer, with \<open>pos\<close>
  as before and the requested bytes valid.
\<close>

theorem s_get_p_at_pos_in_range:
  "(\<not> flag_stream s \<longrightarrow> unat (size_s s) \<le> unat p + unat req \<longrightarrow> unat p + unat req < 2 ^ 32 \<longrightarrow>
      s_get_p_at_pos w s p req = Inl (RangeError_bounds p req (size_s s)))
   \<and> (unat p + unat req < unat (size_s s) \<longrightarrow>
        s_get_p_at_pos w s p req = Inr (w, s, p)
        \<and> (valid_inside s \<longrightarrow>
             load (data s) (unat p) (Suc (unat req))
               = Some (bytes s (unat p) (Suc (unat p + unat req)))))
   \<and> (flag_stream s \<longrightarrow> unat (size_s s) \<le> unat p + unat req \<longrightarrow>
        unat p + unat req + 1 < 2 ^ 32 \<longrightarrow>
        s_read_stream w s (p + req + 1) =
          (case loop_body w s (p + req + 1) of
             Inl x \<Rightarrow> Inl x
           | Inr (w', s', rc) \<Rightarrow>
               if rc \<le> 0 then Inr (w', s', - 1)
               else s_read_stream_loop w' s' (p + req + 1) (pos s))
        \<and> (\<forall>w' s' rc. s_read_stream w s (p + req + 1) = Inr (w', s', rc) \<longrightarrow>
             (rc < 0 \<longrightarrow> s_get_p_at_pos w s p req = Inl (RangeError_stream req))
             \<and> (\<not> rc < 0 \<longrightarrow> s_get_p_at_pos w s p req = Inr (w', s', p)
                  \<and> pos s' = pos s \<and> unat p + unat req < unat (size_s s')))
        \<and> (\<forall>x. s_read_stream w s (p + req + 1) = Inl x \<longrightarrow>
              s_get_p_at_pos w s p req = Inl x \<and> oom_or_undefined x)
        \<and> (\<forall>a b c. s_get_p_at_pos w s p req \<noteq> Inl (RangeError_bounds a b c)))"
proof (intro conjI impI allI)
  assume "\<not> flag_stream s" "unat (size_s s) \<le> unat p + unat req" "unat p + unat req < 2 ^ 32"
  then show "s_get_p_at_pos w s p req = Inl (RangeError_bounds p req (size_s s))"
    by (simp add: s_get_p_at_pos_bounded word_le_nat_alt u32_add_nowrap)
next
  assume h: "unat p + unat req < unat (size_s s)"
  then have "unat p + unat req < 2 ^ 32"
    using unsigned_less [of "size_s s", where ?'a = nat] by simp
  with h have "p + req < size_s s" by (simp add: word_less_nat_alt u32_add_nowrap)
  then show "s_get_p_at_pos w s p req = Inr (w, s, p)" by (rule s_get_p_at_pos_inside)
next
  assume h: "unat p + unat req < unat (size_s s)" and ok: "valid_inside s"
  then have "unat p + Suc (unat req) \<le> allocated s" by (simp add: valid_inside_def)
  then show "load (data s) (unat p) (Suc (unat req))
               = Some (bytes s (unat p) (Suc (unat p + unat req)))"
    by (simp add: load_eq)
next
  assume st: "flag_stream s" and ge: "unat (size_s s) \<le> unat p + unat req"
    and nw: "unat p + unat req + 1 < 2 ^ 32"
  from nw have s1: "unat (p + req) = unat p + unat req" by (simp add: u32_add_nowrap)
  with nw have s2: "unat (p + req + 1) = unat p + unat req + 1"
    by (simp add: unat_add_lem [THEN iffD1])
  from ge s2 have "size_s s < p + req + 1" by (simp add: word_less_nat_alt)
  then show "s_read_stream w s (p + req + 1) =
          (case loop_body w s (p + req + 1) of
             Inl x \<Rightarrow> Inl x
           | Inr (w', s', rc) \<Rightarrow>
               if rc \<le> 0 then Inr (w', s', - 1)
               else s_read_stream_loop w' s' (p + req + 1) (pos s))"
    by (rule s_read_stream_pull)
next
  fix w' s' rc
  assume st: "flag_stream s" and ge: "unat (size_s s) \<le> unat p + unat req"
    and nw: "unat p + unat req + 1 < 2 ^ 32"
    and r: "s_read_stream w s (p + req + 1) = Inr (w', s', rc)"
  from nw have s1: "unat (p + req) = unat p + unat req" by (simp add: u32_add_nowrap)
  with nw have s2: "unat (p + req + 1) = unat p + unat req + 1"
    by (simp add: unat_add_lem [THEN iffD1])
  from ge s1 have wge: "size_s s \<le> p + req" by (simp add: word_le_nat_alt)
  { assume "rc < 0"
    with st wge r show "s_get_p_at_pos w s p req = Inl (RangeError_stream req)"
      by (simp add: s_get_p_at_pos_streaming) }
  { assume n: "\<not> rc < 0"
    with st wge r show "s_get_p_at_pos w s p req = Inr (w', s', p)"
      by (simp add: s_get_p_at_pos_streaming)
    from s_read_stream_Inr [OF r] n have "pos s' = pos s" and t: "p + req + 1 \<le> size_s s'"
      by (auto simp: fill_result_def)
    then show "pos s' = pos s" by simp
    from t s2 show "unat p + unat req < unat (size_s s')" by (simp add: word_le_nat_alt) }
next
  fix x
  assume st: "flag_stream s" and ge: "unat (size_s s) \<le> unat p + unat req"
    and nw: "unat p + unat req + 1 < 2 ^ 32"
    and r: "s_read_stream w s (p + req + 1) = Inl x"
  from nw have s1: "unat (p + req) = unat p + unat req" by (simp add: u32_add_nowrap)
  from ge s1 have wge: "size_s s \<le> p + req" by (simp add: word_le_nat_alt)
  from st wge r show "s_get_p_at_pos w s p req = Inl x" by (simp add: s_get_p_at_pos_streaming)
  from r show "oom_or_undefined x" by (rule s_read_stream_Inl)
next
  fix a b c
  assume st: "flag_stream s" and ge: "unat (size_s s) \<le> unat p + unat req"
    and nw: "unat p + unat req + 1 < 2 ^ 32"
  from nw have s1: "unat (p + req) = unat p + unat req" by (simp add: u32_add_nowrap)
  from ge s1 have wge: "size_s s \<le> p + req" by (simp add: word_le_nat_alt)
  show "s_get_p_at_pos w s p req \<noteq> Inl (RangeError_bounds a b c)"
  proof
    assume e: "s_get_p_at_pos w s p req = Inl (RangeError_bounds a b c)"
    show False
    proof (cases "s_read_stream w s (p + req + 1)")
      case (Inl x)
      with st wge e have "x = RangeError_bounds a b c" by (simp add: s_get_p_at_pos_streaming)
      with s_read_stream_Inl [OF Inl] show False by (simp add: oom_or_undefined_def)
    next
      case (Inr y)
      with st wge e show False
        by (cases y) (simp add: s_get_p_at_pos_streaming split: if_splits)
    qed
  qed
qed

theorem s_get_p_at_pos_in_range_witness:
  "s_get_p_at_pos (generous []) four_bytes 2 2 = Inl (RangeError_bounds 2 2 4)
   \<and> s_get_p_at_pos (generous []) four_bytes 1 2 = Inr (generous [], four_bytes, 1)
   \<and> load (data four_bytes) 1 3 = Some [2, 3, 4]
   \<and> (\<exists>w' s'. s_get_p_at_pos (generous [Bytes [5, 6]]) four_streaming 4 1 = Inr (w', s', 4)
        \<and> pos s' = 0 \<and> 5 < unat (size_s s'))
   \<and> s_get_p_at_pos (generous [Bytes [5]]) four_streaming 4 1 = Inl (RangeError_stream 1)
   \<and> s_get_p_at_pos refusing four_streaming 4 1 = Inl (NoMemError 2)"
proof -
  have fb: "\<not> flag_stream four_bytes" "size_s four_bytes = 4" "valid_inside four_bytes"
    "pos four_bytes = 0"
    by (simp_all add: four_bytes_def empty_buffer_def valid_inside_def allocated_def block_of_def)
  have fs: "flag_stream four_streaming" "size_s four_streaming = 4" "pos four_streaming = 0"
    by (simp_all add: four_streaming_def four_bytes_def empty_buffer_def)
  have bt: "bytes four_bytes (unat (1 :: u32)) (Suc (unat (1 :: u32) + unat (2 :: u32))) = [2, 3, 4]"
    by (simp add: bytes_def four_bytes_def block_of_def upt_rec)
  note c1 = s_get_p_at_pos_in_range [of four_bytes 2 2 "generous []"]
  note c2 = s_get_p_at_pos_in_range [of four_bytes 1 2 "generous []"]
  from c1 fb have 1: "s_get_p_at_pos (generous []) four_bytes 2 2 = Inl (RangeError_bounds 2 2 4)"
    by simp
  from c2 fb have 2: "s_get_p_at_pos (generous []) four_bytes 1 2 = Inr (generous [], four_bytes, 1)"
    by simp
  from c2 fb bt have 3: "load (data four_bytes) 1 3 = Some [2, 3, 4]" by simp
  obtain w' s' where ok: "s_read_stream (generous [Bytes [5, 6]]) four_streaming (4 + 1 + 1) = Inr (w', s', 1)"
    using four_streaming_fill_ok by (auto simp: map_sum_def split: sum.splits)
  note c3 = s_get_p_at_pos_in_range [of four_streaming 4 1 "generous [Bytes [5, 6]]"]
  from c3 fs ok have 4: "s_get_p_at_pos (generous [Bytes [5, 6]]) four_streaming 4 1 = Inr (w', s', 4)
        \<and> pos s' = 0 \<and> 5 < unat (size_s s')"
    by simp
  obtain w'' s'' where ko: "s_read_stream (generous [Bytes [5]]) four_streaming (4 + 1 + 1) = Inr (w'', s'', - 1)"
    using four_streaming_fill_fails by (auto simp: map_sum_def split: sum.splits)
  note c4 = s_get_p_at_pos_in_range [of four_streaming 4 1 "generous [Bytes [5]]"]
  from c4 fs ko have 5: "s_get_p_at_pos (generous [Bytes [5]]) four_streaming 4 1 = Inl (RangeError_stream 1)"
    by simp
  have oom: "s_read_stream refusing four_streaming (4 + 1 + 1) = Inl (NoMemError 2)"
    by (simp add: s_read_stream_def s_read_stream_loop.simps s_alloc_or_raise_def
        s_realloc_or_raise_def refusing_def four_streaming_def four_bytes_def)
  note c5 = s_get_p_at_pos_in_range [of four_streaming 4 1 refusing]
  from c5 fs oom have 6: "s_get_p_at_pos refusing four_streaming 4 1 = Inl (NoMemError 2)"
    by simp
  from 1 2 3 4 5 6 show ?thesis by blast
qed

text \<open>
  The claim as stated fails where the sum wraps. On the bounded four-byte buffer the
  request \<open>offset = 2^32 - 1\<close>, \<open>length = 2\<close> has the \<open>u32\<close> sum 1: the guard returns a
  pointer \<open>2^32 - 1\<close> bytes into a block of four, and raises nothing. On the streaming
  buffer the request \<open>offset = 2^32 - 1\<close>, \<open>length = 0\<close> lies beyond \<open>size\<close>, but the
  target \<open>offset + length + 1\<close> wraps to 0: nothing is pulled from the source and the
  pointer is returned.
\<close>

theorem s_get_p_at_pos_wrap_counterexample:
  "\<not> flag_stream four_bytes \<and> unat (size_s four_bytes) = 4
   \<and> unat (4294967295 :: u32) + unat (2 :: u32) = 4294967297
   \<and> unat (4294967295 + 2 :: u32) = 1
   \<and> s_get_p_at_pos (generous []) four_bytes 4294967295 2
        = Inr (generous [], four_bytes, 4294967295)
   \<and> load (data four_bytes) (unat (4294967295 :: u32)) 2 = None
   \<and> flag_stream four_streaming \<and> unat (size_s four_streaming) = 4
   \<and> s_get_p_at_pos (generous [Bytes [5]]) four_streaming 4294967295 0
        = Inr (generous [Bytes [5]], four_streaming, 4294967295)"
  by (simp add: four_streaming_def four_bytes_def empty_buffer_def block_of_def
      s_get_p_at_pos_def s_read_stream_def s_read_stream_loop.simps load_def)

text \<open>
  Claim C4 does not hold of the code. With the streaming buffer \<open>four_streaming\<close>
  (\<open>size = 4\<close>, \<open>pos = 0\<close>), a source that delivers one byte and then ends, and the target
  6, the first pass appends the byte and moves \<open>pos\<close> to 1; the second pass reads zero
  bytes and leaves through \<open>return -1\<close>, before the line that restores \<open>pos\<close>. The byte
  appended stays, \<open>size\<close> is 5, and \<open>pos\<close> is 1 instead of the saved 0.
\<close>

theorem s_read_stream_abort_leaves_cursor_moved:
  "pos four_streaming = 0 \<and> size_s four_streaming = 4
   \<and> map_sum id (snd \<circ> snd) (s_read_stream (generous [Bytes [5]]) four_streaming 6) = Inr (- 1)
   \<and> map_sum id (pos \<circ> fst \<circ> snd) (s_read_stream (generous [Bytes [5]]) four_streaming 6) = Inr 1
   \<and> map_sum id (size_s \<circ> fst \<circ> snd) (s_read_stream (generous [Bytes [5]]) four_streaming 6) = Inr 5"
  by (simp add: s_read_stream_def s_read_stream_loop.simps s_alloc_or_raise_def
      s_realloc_or_raise_def realloc_def s_append_def s_alloc_def COPY_def fill_def Let_def
      four_streaming_def four_bytes_def empty_buffer_def generous_def block_of_def)

subsection \<open>The scratch buffer of the fill loop\<close>

lemma loop_body_refused:
  "\<not> grants w (served w) \<Longrightarrow> loop_body w s e = Inl (NoMemError (size_s s - (e - size_s s)))"
  by (simp add: loop_body_def s_alloc_or_raise_def s_realloc_or_raise_def Let_def)

lemma loop_body_overrun:
  assumes g: "grants w (served w)" and i: "input w = Bytes bs # cs"
    and o: "unat (size_s s - (e - size_s s)) < min (unat (e - size_s s)) (length bs)"
  shows "loop_body w s e = Inl Undefined"
  using assms
  by (simp add: loop_body_def s_alloc_or_raise_def s_realloc_or_raise_def Let_def)

lemma u32_sub:
  "unat (a - b) = (if unat b \<le> unat a then unat a - unat b else 2 ^ 32 + unat a - unat b)"
  for a b :: u32
proof -
  have "unat a + 2 ^ 32 - unat b = 2 ^ 32 + unat a - unat b" by arith
  then show ?thesis by (simp add: unat_sub_if_size word_size)
qed

text \<open>
  Claim C10. Every pass of the loop starts in a state with \<open>size < end\<close> and computes
  \<open>req = end - size\<close>. The byte count it asks the allocator for is \<open>size - req\<close> in
  \<open>u32\<close>: it is the count a refused request is reported with. When \<open>req > size\<close> that
  count is \<open>2^32 + size - req\<close>. When it is below \<open>req\<close>, a read may deliver more bytes
  than the block holds, and a read that does so writes outside the block.
\<close>

theorem s_read_stream_scratch_size:
  assumes lt: "size_s s < e"
  shows "(\<not> grants w (served w) \<longrightarrow>
            s_read_stream_loop w s e p0 = Inl (NoMemError (size_s s - (e - size_s s))))
       \<and> (unat (size_s s) < unat (e - size_s s) \<longrightarrow>
            unat (size_s s - (e - size_s s)) = 2 ^ 32 + unat (size_s s) - unat (e - size_s s))
       \<and> (unat (e - size_s s) \<le> unat (size_s s) \<longrightarrow>
            unat (size_s s - (e - size_s s)) = unat (size_s s) - unat (e - size_s s))
       \<and> (grants w (served w) \<longrightarrow> input w = Bytes bs # cs \<longrightarrow>
            unat (size_s s - (e - size_s s)) < min (unat (e - size_s s)) (length bs) \<longrightarrow>
            s_read_stream_loop w s e p0 = Inl Undefined)"
proof (intro conjI impI)
  assume "\<not> grants w (served w)"
  with lt show "s_read_stream_loop w s e p0 = Inl (NoMemError (size_s s - (e - size_s s)))"
    by (simp add: s_read_stream_loop_unfold [of w s] loop_body_refused)
next
  assume "unat (size_s s) < unat (e - size_s s)"
  with u32_sub [of "size_s s" "e - size_s s"]
  show "unat (size_s s - (e - size_s s)) = 2 ^ 32 + unat (size_s s) - unat (e - size_s s)"
    by simp
next
  assume "unat (e - size_s s) \<le> unat (size_s s)"
  with u32_sub [of "size_s s" "e - size_s s"]
  show "unat (size_s s - (e - size_s s)) = unat (size_s s) - unat (e - size_s s)"
    by simp
next
  assume "grants w (served w)" "input w = Bytes bs # cs"
    "unat (size_s s - (e - size_s s)) < min (unat (e - size_s s)) (length bs)"
  with lt show "s_read_stream_loop w s e p0 = Inl Undefined"
    by (simp add: s_read_stream_loop_unfold [of w s] loop_body_overrun)
qed

theorem s_read_stream_scratch_size_witness:
  "size_s four_streaming < 7 \<and> 7 - size_s four_streaming = 3
   \<and> s_read_stream_loop refusing four_streaming 7 0 = Inl (NoMemError 1)
   \<and> unat (size_s four_streaming - (6 - size_s four_streaming)) = 2
   \<and> unat (size_s (empty_buffer\<lparr>flag_stream := True\<rparr>)
            - (2 - size_s (empty_buffer\<lparr>flag_stream := True\<rparr>))) = 4294967294
   \<and> unat (size_s four_streaming - (7 - size_s four_streaming)) = 1
   \<and> s_read_stream_loop (generous [Bytes [5, 6, 7]]) four_streaming 7 0 = Inl Undefined"
proof -
  have fs: "size_s four_streaming = 4"
    by (simp add: four_streaming_def four_bytes_def)
  have e0: "size_s (empty_buffer\<lparr>flag_stream := True\<rparr>) = 0" by (simp add: empty_buffer_def)
  have l1: "size_s four_streaming < 6" and l2: "size_s four_streaming < 7"
    and l3: "size_s (empty_buffer\<lparr>flag_stream := True\<rparr>) < 2"
    by (simp_all add: fs e0)
  have r: "\<not> grants refusing (served refusing)" by (simp add: refusing_def)
  have g: "grants (generous [Bytes [5, 6, 7]]) (served (generous [Bytes [5, 6, 7]]))"
    "input (generous [Bytes [5, 6, 7]]) = Bytes [5, 6, 7] # []"
    by (simp_all add: generous_def)
  have 0: "7 - size_s four_streaming = 3" by (simp add: fs)
  from s_read_stream_scratch_size [OF l2, of refusing 0] r
  have 1: "s_read_stream_loop refusing four_streaming 7 0 = Inl (NoMemError 1)"
    by (simp add: fs)
  from s_read_stream_scratch_size [OF l1, of "generous []" 0]
  have 2: "unat (size_s four_streaming - (6 - size_s four_streaming)) = 2"
    by (simp add: fs)
  from s_read_stream_scratch_size [OF l3, of "generous []" 0]
  have 3: "unat (size_s (empty_buffer\<lparr>flag_stream := True\<rparr>)
            - (2 - size_s (empty_buffer\<lparr>flag_stream := True\<rparr>))) = 4294967294"
    by (simp add: e0)
  from s_read_stream_scratch_size [OF l2, of "generous [Bytes [5, 6, 7]]" 0 "[5, 6, 7]" "[]"] g
  have 4: "unat (size_s four_streaming - (7 - size_s four_streaming)) = 1"
    and 5: "s_read_stream_loop (generous [Bytes [5, 6, 7]]) four_streaming 7 0 = Inl Undefined"
    by (simp_all add: fs)
  from l2 0 1 2 3 4 5 show ?thesis by blast
qed

subsection \<open>Sequences of calls\<close>

lemma s_get_p_at_pos_Inr:
  assumes "s_get_p_at_pos w s p req = Inr (w', s', q)"
  shows "q = p" and "pos s' = pos s" and "p + req + 1 \<le> size_s s'" and "same_flags s s'"
    and "storage_ok s \<Longrightarrow> storage_ok s'"
proof -
  have "q = p \<and> pos s' = pos s \<and> p + req + 1 \<le> size_s s' \<and> same_flags s s'
        \<and> (storage_ok s \<longrightarrow> storage_ok s')"
  proof (cases "p + req < size_s s")
    case True
    with assms have "w' = w" "s' = s" "q = p" by (simp_all add: s_get_p_at_pos_inside)
    with True show ?thesis by (simp add: inc_le same_flags_def)
  next
    case False
    then have ge: "size_s s \<le> p + req" by simp
    show ?thesis
    proof (cases "flag_stream s")
      case False
      with ge assms show ?thesis by (simp add: s_get_p_at_pos_bounded)
    next
      case True
      with ge assms obtain rc where r: "s_read_stream w s (p + req + 1) = Inr (w', s', rc)"
        and n: "\<not> rc < 0" and q: "q = p"
        by (auto simp: s_get_p_at_pos_streaming split: sum.splits if_splits)
      from s_read_stream_Inr [OF r] n q show ?thesis by (auto simp: fill_result_def)
    qed
  qed
  then show "q = p" and "pos s' = pos s" and "p + req + 1 \<le> size_s s'" and "same_flags s s'"
    and "storage_ok s \<Longrightarrow> storage_ok s'"
    by blast+
qed

lemma storage_ok_pos [simp]: "storage_ok (s\<lparr>pos := x\<rparr>) = storage_ok s"
  by (simp add: storage_ok_def allocated_def)

lemma s_get_fixed_bang_Inr:
  assumes "s_get_fixed_bang sz w s = Inr (w', s', v)"
  shows "pos s' = pos s + sz" and "pos s + sz \<le> size_s s'" and "storage_ok s \<Longrightarrow> storage_ok s'"
proof -
  from assms obtain s1 q where g: "s_get_p_at_pos w s (pos s) (sz - 1) = Inr (w', s1, q)"
    and s': "s' = s1\<lparr>pos := pos s1 + sz\<rparr>"
    by (auto simp: s_get_fixed_bang_def Let_def split: sum.splits option.splits)
  from s_get_p_at_pos_Inr [OF g] s'
  show "pos s' = pos s + sz" and "pos s + sz \<le> size_s s'" and "storage_ok s \<Longrightarrow> storage_ok s'"
    by simp_all
qed

lemma s_get_u8_bang_Inr:
  assumes "s_get_u8_bang w s = Inr (w', s', v)"
  shows "pos s' = pos s + 1" and "pos s + 1 \<le> size_s s'" and "storage_ok s \<Longrightarrow> storage_ok s'"
proof -
  from assms obtain s1 q where g: "s_get_p_at_pos w s (pos s) 0 = Inr (w', s1, q)"
    and s': "s' = s1\<lparr>pos := pos s1 + 1\<rparr>"
    by (auto simp: s_get_u8_bang_def s_get_u8_def s_get_p_def
        split: sum.splits option.splits list.splits)
  from s_get_p_at_pos_Inr [OF g] s'
  show "pos s' = pos s + 1" and "pos s + 1 \<le> size_s s'" and "storage_ok s \<Longrightarrow> storage_ok s'"
    by simp_all
qed

lemma s_shift_left_storage_ok:
  assumes "s_shift_left w s = Inr (w', s')"
  shows "storage_ok s'"
proof (cases "size_s s - pos s = 0")
  case True
  with assms show ?thesis by (auto simp: s_shift_left_empty storage_ok_def allocated_def)
next
  case False
  from assms False obtain d' where "data s' = Some d'" "len d' = unat (size_s s - pos s)"
    by (rule s_shift_left_Inr)
  with s_shift_left_sizes [OF assms] show ?thesis by (simp add: storage_ok_def allocated_def)
qed

lemma typed_read_Inr:
  assumes "typed_read c" and "do_call ld w s c = Inr (w', s')"
  shows "pos s' \<le> size_s s'" and "storage_ok s \<Longrightarrow> storage_ok s'"
proof -
  have "pos s' \<le> size_s s' \<and> (storage_ok s \<longrightarrow> storage_ok s')"
  proof (cases c)
    case ReadU8
    with assms obtain v where "s_get_u8_bang w s = Inr (w', s', v)"
      by (cases "s_get_u8_bang w s") auto
    from s_get_u8_bang_Inr [OF this] show ?thesis by simp
  next
    case ReadU32
    with assms obtain v where "s_get_fixed_bang 4 w s = Inr (w', s', v)"
      by (cases "s_get_fixed_bang 4 w s") (auto simp: s_get_u32_bang_def)
    from s_get_fixed_bang_Inr [OF this] show ?thesis by simp
  next
    case ReadF32
    with assms obtain v where "s_get_fixed_bang 4 w s = Inr (w', s', v)"
      by (cases "s_get_fixed_bang 4 w s") (auto simp: s_get_float_bang_def)
    from s_get_fixed_bang_Inr [OF this] show ?thesis by simp
  next
    case ReadF64
    with assms obtain v where "s_get_fixed_bang 8 w s = Inr (w', s', v)"
      by (cases "s_get_fixed_bang 8 w s") (auto simp: s_get_double_bang_def)
    from s_get_fixed_bang_Inr [OF this] show ?thesis by simp
  next
    case ReadExtendedFloat
    with assms obtain v where "s_get_fixed_bang ld w s = Inr (w', s', v)"
      by (cases "s_get_fixed_bang ld w s") (auto simp: s_get_long_double_bang_def)
    from s_get_fixed_bang_Inr [OF this] show ?thesis by simp
  qed (use assms in simp_all)
  then show "pos s' \<le> size_s s'" and "storage_ok s \<Longrightarrow> storage_ok s'" by blast+
qed

lemma do_call_storage_ok:
  assumes ok: "storage_ok s" and r: "do_call ld w s c = Inr (w', s')"
  shows "storage_ok s'"
proof (cases "typed_read c")
  case True
  from typed_read_Inr(2) [OF True r ok] show ?thesis .
next
  case False
  then show ?thesis
  proof (cases c)
    case (Append bs)
    with r ok show ?thesis by (auto dest: s_append_storage_ok(1))
  next
    case (ReadAt p n)
    with r obtain s1 q where g: "s_get_p_at_pos w s p n = Inr (w', s1, q)"
      and s': "s' = s1\<lparr>pos := pos s1 + n\<rparr>"
      by (auto simp: s_get_p_at_pos_bang_def split: sum.splits)
    from s_get_p_at_pos_Inr(5) [OF g ok] s' show ?thesis by simp
  next
    case (ShiftCursor n)
    with r ok show ?thesis by (auto simp: s_shift_position_bang_def)
  next
    case Compact
    with r show ?thesis by (auto dest: s_shift_left_storage_ok)
  qed simp_all
qed

lemma do_call_cursor:
  assumes ok: "storage_ok s" and le: "pos s \<le> size_s s" and k: "keeps_cursor c"
    and r: "do_call ld w s c = Inr (w', s')"
  shows "pos s' \<le> size_s s'"
proof (cases "typed_read c")
  case True
  from typed_read_Inr(1) [OF True r] show ?thesis .
next
  case False
  with k obtain bs where Append: "c = Append bs" by (cases c) auto
  let ?n = "word_of_nat (length bs) :: u32"
  from r Append have ap: "s_append w s (block_of bs) ?n = Inr (w', s')" by simp
  from s_append_storage_ok(2) [OF ap ok] have sz: "unat (size_s s') = unat (size_s s) + unat ?n" .
  from le have "unat (pos s) + unat ?n \<le> unat (size_s s) + unat ?n"
    by (simp add: word_le_nat_alt)
  moreover have "unat (size_s s) + unat ?n < 2 ^ 32"
    using sz unsigned_less [of "size_s s'", where ?'a = nat] by simp
  ultimately have "unat (pos s + ?n) \<le> unat (size_s s) + unat ?n"
    by (simp add: unat_add_lem [THEN iffD1])
  with sz s_append_pos [OF ap] show ?thesis by (simp add: word_le_nat_alt)
qed

lemma storage_ok_empty_buffer: "storage_ok (empty_buffer\<lparr>flag_stream := st\<rparr>)"
  by (simp add: storage_ok_def allocated_def empty_buffer_def)

lemma s_create_Inr: "s_create w n = Inr (w0, s0) \<Longrightarrow> s0 = empty_buffer"
  by (auto simp: s_create_def split: sum.splits)

lemma do_calls_invariant:
  assumes "storage_ok s" and "do_calls ld w s cs = Inr (w', s')"
  shows "storage_ok s' \<and> (pos s \<le> size_s s \<longrightarrow> list_all keeps_cursor cs \<longrightarrow> pos s' \<le> size_s s')"
  using assms
proof (induction cs arbitrary: w s)
  case Nil
  then show ?case by simp
next
  case (Cons c cs)
  from Cons.prems(2) obtain w1 s1 where c: "do_call ld w s c = Inr (w1, s1)"
    and r: "do_calls ld w1 s1 cs = Inr (w', s')"
    by (auto split: sum.splits)
  from do_call_storage_ok [OF Cons.prems(1) c] have ok1: "storage_ok s1" .
  from Cons.IH [OF ok1 r] have ih: "storage_ok s'"
    "pos s1 \<le> size_s s1 \<Longrightarrow> list_all keeps_cursor cs \<Longrightarrow> pos s' \<le> size_s s'"
    by blast+
  have "pos s' \<le> size_s s'" if "pos s \<le> size_s s" and "list_all keeps_cursor (c # cs)"
  proof -
    from that have k: "keeps_cursor c" and ks: "list_all keeps_cursor cs" by simp_all
    from do_call_cursor [OF Cons.prems(1) that(1) k c] ks show ?thesis by (rule ih(2))
  qed
  with ih(1) show ?case by blast
qed

text \<open>
  Claim C1, as the code has it. Take any sequence of calls on a buffer created empty,
  bounded or streaming; every prefix of it is such a sequence too. After every call that
  returns, \<open>size \<le> rsize\<close> and \<open>rsize\<close> is the length of the block. \<open>pos \<le> size\<close> holds
  after every call as long as the calls are appends and typed reads. The other calls do
  not keep it: \<open>s_shift_position_bang\<close> adds to \<open>pos\<close> without looking at \<open>size\<close>,
  \<open>s_get_p_at_pos_bang\<close> checks the offset it is given and adds the length to \<open>pos\<close>
  wherever \<open>pos\<close> was, and \<open>s_shift_left\<close> lowers \<open>size\<close> and leaves \<open>pos\<close>.
\<close>

theorem invariant_after_calls:
  assumes "s_create w n = Inr (w0, s0)"
    and "do_calls ld w0 (s0\<lparr>flag_stream := st\<rparr>) cs = Inr (w', s')"
  shows "unat (size_s s') \<le> unat (rsize s') \<and> allocated s' = unat (rsize s')
       \<and> (list_all keeps_cursor cs \<longrightarrow> unat (pos s') \<le> unat (size_s s'))"
proof -
  from assms(1) have s0: "s0 = empty_buffer" by (rule s_create_Inr)
  have ok: "storage_ok (s0\<lparr>flag_stream := st\<rparr>)" unfolding s0 by (rule storage_ok_empty_buffer)
  have le: "pos (s0\<lparr>flag_stream := st\<rparr>) \<le> size_s (s0\<lparr>flag_stream := st\<rparr>)"
    by (simp add: s0 empty_buffer_def)
  from do_calls_invariant [OF ok assms(2)] le show ?thesis
    by (simp add: storage_ok_def word_le_nat_alt)
qed

theorem invariant_after_calls_witness:
  "\<exists>w0 s0 w' s'. s_create (generous [Bytes [1, 2, 3, 4]]) 64 = Inr (w0, s0)
     \<and> do_calls 16 w0 (s0\<lparr>flag_stream := True\<rparr>) [ReadU32, Append [9]] = Inr (w', s')
     \<and> list_all keeps_cursor [ReadU32, Append [9]]
     \<and> unat (size_s s') \<le> unat (rsize s') \<and> allocated s' = unat (rsize s')
     \<and> unat (pos s') \<le> unat (size_s s')"
proof -
  obtain w0 s0 where c: "s_create (generous [Bytes [1, 2, 3, 4]]) 64 = Inr (w0, s0)"
    by (simp add: s_create_def s_alloc_or_raise_def s_realloc_or_raise_def generous_def)
  then have w0: "w0 = (generous [Bytes [1, 2, 3, 4]])\<lparr>served := 1\<rparr>" and s0: "s0 = empty_buffer"
    by (auto simp: s_create_def s_alloc_or_raise_def s_realloc_or_raise_def generous_def)
  obtain w' s' where r: "do_calls 16 w0 (s0\<lparr>flag_stream := True\<rparr>) [ReadU32, Append [9]] = Inr (w', s')"
    unfolding w0 s0
    by (simp add: s_get_u32_bang_def s_get_fixed_bang_def s_get_p_at_pos_def
        s_read_stream_def s_read_stream_loop.simps s_alloc_or_raise_def
        s_realloc_or_raise_def realloc_def s_append_def s_alloc_def COPY_def fill_def Let_def
        load_def empty_buffer_def generous_def block_of_def)
  have k: "list_all keeps_cursor [ReadU32, Append [9]]" by simp
  from invariant_after_calls [OF c r] c r k show ?thesis by blast
qed

text \<open>
  The claim as stated fails on two short sequences on the buffer \<open>s_create\<close> returns:
  appending three bytes and compacting leaves \<open>pos = 3\<close> over \<open>size = 0\<close>; appending one
  byte and moving the cursor by 5 leaves \<open>pos = 6\<close> over \<open>size = 1\<close>.
\<close>

theorem invariant_counterexample:
  "s_create (generous []) 64 = Inr ((generous [])\<lparr>served := 1\<rparr>, empty_buffer)
   \<and> map_sum id (pos \<circ> snd)
        (do_calls 16 ((generous [])\<lparr>served := 1\<rparr>) empty_buffer [Append [1, 2, 3], Compact]) = Inr 3
   \<and> map_sum id (size_s \<circ> snd)
        (do_calls 16 ((generous [])\<lparr>served := 1\<rparr>) empty_buffer [Append [1, 2, 3], Compact]) = Inr 0
   \<and> map_sum id (pos \<circ> snd)
        (do_calls 16 ((generous [])\<lparr>served := 1\<rparr>) empty_buffer [Append [1], ShiftCursor 5]) = Inr 6
   \<and> map_sum id (size_s \<circ> snd)
        (do_calls 16 ((generous [])\<lparr>served := 1\<rparr>) empty_buffer [Append [1], ShiftCursor 5]) = Inr 1"
  by (simp add: s_create_def s_alloc_or_raise_def s_realloc_or_raise_def realloc_def
      s_append_def s_alloc_def COPY_def s_shift_left_def s_shift_position_bang_def
      empty_buffer_def generous_def block_of_def)

end
